theory Spec2Isabelle
  imports Complex_Main "HOL-Library.Multiset"
begin

section \<open>Numbers\<close>

text \<open>
  Distances and edge weights are C++ \<open>double\<close>s, the binary64 numbers of IEEE 754. A value
  of the model is a finite number \<open>Fin x\<close> or \<open>PosInf\<close>
  (\<open>std::numeric_limits<double>::infinity()\<close>); \<open>Fin x\<close> is a \<open>double\<close> when \<open>x\<close> has at
  most 53 significant binary digits at an exponent in range. Comparison is that of the
  numbers. NaN and negative infinity are not values of the model: the program adds
  distances and weights, divides by 40 and multiplies by 60, and none of these gives
  either of the two from operands that are numbers and not negative, as the distances are
  and the weights that \<open>addEdge\<close> accepts. A NaN given as a weight, which the check
  \<open>weight < 0\<close> of \<open>addEdge\<close> lets pass, is outside the model. Vertex identifiers are C++
  \<open>int\<close>s and are modelled as \<open>int\<close>; indices into vectors are natural numbers.
\<close>

datatype double = Fin real | PosInf

instantiation double :: linorder
begin

fun less_eq_double :: "double \<Rightarrow> double \<Rightarrow> bool" where
  "less_eq_double (Fin a) (Fin b) = (a \<le> b)"
| "less_eq_double (Fin a) PosInf = True"
| "less_eq_double PosInf (Fin b) = False"
| "less_eq_double PosInf PosInf = True"

fun less_double :: "double \<Rightarrow> double \<Rightarrow> bool" where
  "less_double (Fin a) (Fin b) = (a < b)"
| "less_double (Fin a) PosInf = True"
| "less_double PosInf (Fin b) = False"
| "less_double PosInf PosInf = False"

instance
proof
  fix x y z :: double
  show "(x < y) = (x \<le> y \<and> \<not> y \<le> x)" by (cases x; cases y) auto
  show "x \<le> x" by (cases x) auto
  show "x \<le> y \<Longrightarrow> y \<le> z \<Longrightarrow> x \<le> z" by (cases x; cases y; cases z) auto
  show "x \<le> y \<Longrightarrow> y \<le> x \<Longrightarrow> x = y" by (cases x; cases y) auto
  show "x \<le> y \<or> y \<le> x" by (cases x; cases y) auto
qed

end

text \<open>
  The arithmetic of the hardware: the exact result is rounded to the nearest \<open>double\<close>,
  a tie to the one whose last digit is even. \<open>expo x\<close> is the exponent of the last of the
  53 binary digits of \<open>x\<close>: the least \<open>e\<close> from \<open>-1074\<close> (the subnormal numbers) up to
  \<open>971\<close> with \<open>\<bar>x\<bar> < 2 powi (e + 53)\<close>. \<open>rnd x\<close> is the multiple of \<open>2 powi e\<close> nearest
  to \<open>x\<close>, and a result that reaches \<open>2 ^ 1024\<close> overflows to infinity.
\<close>

function expoFrom :: "int \<Rightarrow> real \<Rightarrow> int" where
  "expoFrom e x = (if e < 971 \<and> 2 powi (e + 53) \<le> \<bar>x\<bar> then expoFrom (e + 1) x else e)"
  by pat_completeness auto
termination
  by (relation "measure (\<lambda>(e, x). nat (971 - e))") auto

declare expoFrom.simps [simp del]

definition expo :: "real \<Rightarrow> int" where
  "expo x = expoFrom (- 1074) x"

definition nearestEven :: "real \<Rightarrow> int" where
  "nearestEven q =
     (let f = \<lfloor>q\<rfloor>; r = q - of_int f
      in if r < 1 / 2 then f else if 1 / 2 < r then f + 1 else if even f then f else f + 1)"

definition rnd :: "real \<Rightarrow> real" where
  "rnd x = of_int (nearestEven (x / 2 powi expo x)) * 2 powi expo x"

definition toDouble :: "real \<Rightarrow> double" where
  "toDouble x = (if 2 ^ 1024 \<le> rnd x then PosInf else Fin (rnd x))"

text \<open>The sum of two \<open>double\<close>s, and the literal \<open>0.0\<close>.\<close>

instantiation double :: "{zero, plus}"
begin

definition zero_double :: double where
  "zero_double = Fin 0"

fun plus_double :: "double \<Rightarrow> double \<Rightarrow> double" where
  "plus_double (Fin a) (Fin b) = toDouble (a + b)"
| "plus_double (Fin a) PosInf = PosInf"
| "plus_double PosInf y = PosInf"

instance ..

end

section \<open>MinHeap (min\_heap.h, min\_heap.cpp)\<close>

text \<open>
  The indexed binary heap: the vector \<open>heap\<close> of nodes and the hash map \<open>positions\<close>
  from a vertex to the slot that holds it. The log of operations kept beside them is
  write-only and is left out.
\<close>

record HeapNode =
  vertex :: int
  distance :: double

record MinHeap =
  heap :: "HeapNode list"
  positions :: "int \<rightharpoonup> nat"

definition emptyHeap :: MinHeap where
  "emptyHeap = \<lparr>heap = [], positions = Map.empty\<rparr>"

definition parent :: "nat \<Rightarrow> nat" where
  "parent i = (i - 1) div 2"

definition leftChild :: "nat \<Rightarrow> nat" where
  "leftChild i = 2 * i + 1"

definition rightChild :: "nat \<Rightarrow> nat" where
  "rightChild i = 2 * i + 2"

text \<open>\<open>MinHeap::swap\<close>: the two position entries are written first, then the nodes.\<close>

definition swap :: "MinHeap \<Rightarrow> nat \<Rightarrow> nat \<Rightarrow> MinHeap" where
  "swap h i j =
     (let pos1 = (positions h)(vertex (heap h ! i) \<mapsto> j);
          pos2 = pos1(vertex (heap h ! j) \<mapsto> i);
          temp = heap h ! i;
          hp1 = (heap h)[i := heap h ! j];
          hp2 = hp1[j := temp]
      in h\<lparr>heap := hp2, positions := pos2\<rparr>)"

lemma length_heap_swap: "length (heap (swap h i j)) = length (heap h)"
  by (simp add: swap_def Let_def)

function heapifyUp :: "MinHeap \<Rightarrow> nat \<Rightarrow> MinHeap" where
  "heapifyUp h i =
     (if i > 0 \<and> distance (heap h ! parent i) > distance (heap h ! i)
      then heapifyUp (swap h i (parent i)) (parent i)
      else h)"
  by pat_completeness auto
termination
  by (relation "measure (\<lambda>(h, i). i)") (auto simp: parent_def)

declare heapifyUp.simps [simp del]

function heapifyDown :: "MinHeap \<Rightarrow> nat \<Rightarrow> MinHeap" where
  "heapifyDown h i =
     (let left = leftChild i;
          right = rightChild i;
          minIndex1 = (if left < length (heap h)
                          \<and> distance (heap h ! left) < distance (heap h ! i)
                       then left else i);
          minIndex = (if right < length (heap h)
                          \<and> distance (heap h ! right) < distance (heap h ! minIndex1)
                      then right else minIndex1)
      in if minIndex \<noteq> i then heapifyDown (swap h i minIndex) minIndex else h)"
  by pat_completeness auto
termination
  by (relation "measure (\<lambda>(h, i). length (heap h) - i)")
     (auto simp: length_heap_swap leftChild_def rightChild_def split: if_splits)

declare heapifyDown.simps [simp del]

text \<open>\<open>MinHeap::insert\<close> (named \<open>heapInsert\<close>: \<open>insert\<close> is a constant of HOL).\<close>

definition heapInsert :: "MinHeap \<Rightarrow> int \<Rightarrow> double \<Rightarrow> MinHeap" where
  "heapInsert h v d =
     (let node = \<lparr>vertex = v, distance = d\<rparr>;
          hp = heap h @ [node];
          index = length hp - 1;
          h1 = h\<lparr>heap := hp, positions := (positions h)(v \<mapsto> index)\<rparr>
      in heapifyUp h1 index)"

text \<open>
  \<open>MinHeap::extractMin\<close> returns the removed node and the heap it leaves; on an empty
  heap it returns the sentinel \<open>HeapNode(-1, infinity)\<close> and changes nothing.
\<close>

definition extractMin :: "MinHeap \<Rightarrow> HeapNode \<times> MinHeap" where
  "extractMin h =
     (if heap h = [] then (\<lparr>vertex = -1, distance = PosInf\<rparr>, h)
      else
        let minNode = heap h ! 0;
            hp1 = (heap h)[0 := last (heap h)];
            pos1 = (positions h)(vertex (hp1 ! 0) \<mapsto> 0);
            hp2 = butlast hp1;
            pos2 = pos1(vertex minNode := None);
            h2 = h\<lparr>heap := hp2, positions := pos2\<rparr>
        in (minNode, if hp2 \<noteq> [] then heapifyDown h2 0 else h2))"

definition decreaseKey :: "MinHeap \<Rightarrow> int \<Rightarrow> double \<Rightarrow> MinHeap" where
  "decreaseKey h v newDistance =
     (case positions h v of
        None \<Rightarrow> heapInsert h v newDistance
      | Some index \<Rightarrow>
          heapifyUp
            (h\<lparr>heap := (heap h)[index := (heap h ! index)\<lparr>distance := newDistance\<rparr>]\<rparr>)
            index)"

definition isEmpty :: "MinHeap \<Rightarrow> bool" where
  "isEmpty h = (heap h = [])"

definition heapSize :: "MinHeap \<Rightarrow> nat" where
  "heapSize h = length (heap h)"


section \<open>Graph (graph.h, graph.cpp)\<close>

record Edge =
  destination :: int
  weight :: double
  roadName :: string

text \<open>\<open>Node::id\<close> and \<open>Node::name\<close> carry the prefix \<open>node\<close>: \<open>id\<close> is a constant of HOL.\<close>

record Node =
  nodeId :: int
  nodeName :: string
  latitude :: double
  longitude :: double

record Graph =
  numVertices :: int
  adjacencyList :: "Edge list list"
  nodes :: "int \<rightharpoonup> Node"

text \<open>The exceptions the graph throws, each with its \<open>what()\<close> message.\<close>

datatype error = OutOfRange string | InvalidArgument string | LengthError

fun what :: "error \<Rightarrow> string" where
  "what (OutOfRange m) = m"
| "what (InvalidArgument m) = m"
| "what LengthError = ''vector::_M_default_append''"

text \<open>
  The constructor \<open>Graph::Graph(int vertices)\<close>: \<open>resize\<close> of a negative count, read as
  an unsigned size, exceeds the vector's maximum size and throws.
\<close>

definition newGraph :: "int \<Rightarrow> error + Graph" where
  "newGraph vertices =
     (if vertices < 0 then Inl LengthError
      else Inr \<lparr>numVertices = vertices,
                adjacencyList = replicate (nat vertices) [],
                nodes = Map.empty\<rparr>)"

definition addEdge :: "Graph \<Rightarrow> int \<Rightarrow> int \<Rightarrow> double \<Rightarrow> string \<Rightarrow> error + Graph" where
  "addEdge g src dest w name =
     (if src < 0 \<or> src \<ge> numVertices g \<or> dest < 0 \<or> dest \<ge> numVertices g
      then Inl (OutOfRange ''Invalid vertex index'')
      else if w < 0 then Inl (InvalidArgument ''Edge weight cannot be negative'')
      else
        let adj1 = (adjacencyList g)
                     [nat src := adjacencyList g ! nat src
                                 @ [\<lparr>destination = dest, weight = w, roadName = name\<rparr>]];
            adj2 = adj1[nat dest := adj1 ! nat dest
                                    @ [\<lparr>destination = src, weight = w, roadName = name\<rparr>]]
        in Inr (g\<lparr>adjacencyList := adj2\<rparr>))"

definition addDirectedEdge :: "Graph \<Rightarrow> int \<Rightarrow> int \<Rightarrow> double \<Rightarrow> string \<Rightarrow> error + Graph" where
  "addDirectedEdge g src dest w name =
     (if src < 0 \<or> src \<ge> numVertices g \<or> dest < 0 \<or> dest \<ge> numVertices g
      then Inl (OutOfRange ''Invalid vertex index'')
      else if w < 0 then Inl (InvalidArgument ''Edge weight cannot be negative'')
      else Inr (g\<lparr>adjacencyList := (adjacencyList g)
                     [nat src := adjacencyList g ! nat src
                                 @ [\<lparr>destination = dest, weight = w, roadName = name\<rparr>]]\<rparr>))"

definition addNode :: "Graph \<Rightarrow> int \<Rightarrow> string \<Rightarrow> double \<Rightarrow> double \<Rightarrow> error + Graph" where
  "addNode g ident name lat lon =
     (if ident < 0 \<or> ident \<ge> numVertices g then Inl (OutOfRange ''Invalid node ID'')
      else Inr (g\<lparr>nodes := (nodes g)(ident \<mapsto>
                  \<lparr>nodeId = ident, nodeName = name, latitude = lat, longitude = lon\<rparr>)\<rparr>))"

definition getAdjacentNodes :: "Graph \<Rightarrow> int \<Rightarrow> error + Edge list" where
  "getAdjacentNodes g v =
     (if v < 0 \<or> v \<ge> numVertices g then Inl (OutOfRange ''Invalid vertex index'')
      else Inr (adjacencyList g ! nat v))"

definition getNode :: "Graph \<Rightarrow> int \<Rightarrow> error + Node" where
  "getNode g ident =
     (case nodes g ident of None \<Rightarrow> Inl (OutOfRange ''Node not found'') | Some n \<Rightarrow> Inr n)"

definition nodeExists :: "Graph \<Rightarrow> int \<Rightarrow> bool" where
  "nodeExists g ident = (nodes g ident \<noteq> None)"

definition getNumVertices :: "Graph \<Rightarrow> int" where
  "getNumVertices g = numVertices g"

text \<open>\<open>Graph::validate\<close>: every edge leads to a vertex and no weight is negative.\<close>

definition validate :: "Graph \<Rightarrow> bool" where
  "validate g =
     list_all (\<lambda>edges. list_all (\<lambda>e. \<not> (destination e < 0 \<or> destination e \<ge> numVertices g)
                                     \<and> \<not> weight e < 0) edges)
       (take (nat (numVertices g)) (adjacencyList g))"

section \<open>Dijkstra (dijkstra.h, dijkstra.cpp)\<close>

text \<open>The execution log of the algorithm is write-only and is left out of the results.\<close>

record DijkstraResult =
  distances :: "double list"
  predecessors :: "int list"
  success :: bool
  errorMessage :: string

record PathResult =
  path :: "int list"
  totalDistance :: double
  estimatedTime :: double
  roadNames :: "string list"
  found :: bool

text \<open>The inner loop of \<open>findShortestPaths\<close> over the edges that leave \<open>u\<close>.\<close>

fun relaxEdges :: "int \<Rightarrow> Edge list \<Rightarrow> DijkstraResult \<Rightarrow> MinHeap \<Rightarrow> DijkstraResult \<times> MinHeap" where
  "relaxEdges u [] result pq = (result, pq)"
| "relaxEdges u (edge # rest) result pq =
     (let v = destination edge;
          newDist = distances result ! nat u + weight edge
      in if newDist < distances result ! nat v
         then relaxEdges u rest
                (result\<lparr>distances := (distances result)[nat v := newDist],
                        predecessors := (predecessors result)[nat v := u]\<rparr>)
                (decreaseKey pq v newDist)
         else relaxEdges u rest result pq)"

text \<open>
  The \<open>while (!pq.isEmpty())\<close> loop. It is a partial function: \<open>None\<close> stands for a loop
  that never ends. An exception of \<open>getAdjacentNodes\<close> is caught and ends the search as
  a failure.
\<close>

partial_function (option) dijkstraLoop :: "Graph \<Rightarrow> DijkstraResult \<Rightarrow> MinHeap \<Rightarrow> DijkstraResult option" where
  "dijkstraLoop g result pq =
     (if isEmpty pq then Some result
      else
        (case extractMin pq of (current, pq1) \<Rightarrow>
           if distance current > distances result ! nat (vertex current)
           then dijkstraLoop g result pq1
           else
             (case getAdjacentNodes g (vertex current) of
                Inl e \<Rightarrow>
                  Some (result\<lparr>success := False,
                               errorMessage := ''Error processing node: '' @ what e\<rparr>)
              | Inr neighbors \<Rightarrow>
                  (case relaxEdges (vertex current) neighbors result pq1 of
                     (result1, pq2) \<Rightarrow> dijkstraLoop g result1 pq2))))"

declare dijkstraLoop.simps [code]

definition findShortestPaths :: "Graph \<Rightarrow> int \<Rightarrow> DijkstraResult option" where
  "findShortestPaths g source =
     (if \<not> nodeExists g source
      then Some \<lparr>distances = [], predecessors = [], success = False,
                 errorMessage = ''Source node does not exist''\<rparr>
      else
        let n = getNumVertices g;
            result = \<lparr>distances = (replicate (nat n) PosInf)[nat source := 0],
                      predecessors = replicate (nat n) (- 1),
                      success = True, errorMessage = []\<rparr>;
            pq = heapInsert emptyHeap source 0
        in dijkstraLoop g result pq)"

text \<open>
  \<open>reconstructPath\<close>: the walk back along the predecessors, then the reversal. The walk
  back is a loop that need not end on arbitrary predecessor vectors.
\<close>

partial_function (option) reconstructLoop :: "int \<Rightarrow> int list \<Rightarrow> int \<Rightarrow> int list \<Rightarrow> int list option" where
  "reconstructLoop source preds current acc =
     (if current \<noteq> - 1
      then (if current = source then Some (acc @ [current])
            else reconstructLoop source preds (preds ! nat current) (acc @ [current]))
      else Some acc)"

declare reconstructLoop.simps [code]

definition reconstructPath :: "int \<Rightarrow> int \<Rightarrow> int list \<Rightarrow> int list option" where
  "reconstructPath source dest preds = map_option rev (reconstructLoop source preds dest [])"

text \<open>
  \<open>calculateETA\<close>: the quotient by the average speed, rounded, times 60, rounded. The
  average speed is a \<open>double\<close> that is finite and greater than 0; every call of the
  program leaves it at its default, 40.0.
\<close>

definition calculateETA :: "double \<Rightarrow> real \<Rightarrow> double" where
  "calculateETA d avgSpeedKmh =
     (case d of
        Fin x \<Rightarrow>
          (case toDouble (x / avgSpeedKmh) of
             Fin q \<Rightarrow> toDouble (q * 60)
           | PosInf \<Rightarrow> PosInf)
      | PosInf \<Rightarrow> PosInf)"

text \<open>
  The road names along a path: for each consecutive pair the name of the first edge from
  the earlier node to the later one, nothing when there is none. \<open>getAdjacentNodes\<close> may
  throw here, and nothing catches it.
\<close>

fun firstRoadName :: "Edge list \<Rightarrow> int \<Rightarrow> string list" where
  "firstRoadName [] to = []"
| "firstRoadName (edge # rest) to =
     (if destination edge = to then [roadName edge] else firstRoadName rest to)"

fun roadNamesAlong :: "Graph \<Rightarrow> int list \<Rightarrow> error + string list" where
  "roadNamesAlong g (a # b # rest) =
     (case getAdjacentNodes g a of
        Inl e \<Rightarrow> Inl e
      | Inr edges \<Rightarrow>
          (case roadNamesAlong g (b # rest) of
             Inl e \<Rightarrow> Inl e
           | Inr names \<Rightarrow> Inr (firstRoadName edges b @ names)))"
| "roadNamesAlong g p = Inr []"

definition notFound :: PathResult where
  "notFound = \<lparr>path = [], totalDistance = 0, estimatedTime = 0, roadNames = [], found = False\<rparr>"

definition findShortestPath :: "Graph \<Rightarrow> int \<Rightarrow> int \<Rightarrow> (error + PathResult) option" where
  "findShortestPath g source dest =
     (if \<not> nodeExists g source then Some (Inr notFound)
      else if \<not> nodeExists g dest then Some (Inr notFound)
      else
        (case findShortestPaths g source of
           None \<Rightarrow> None
         | Some dijkstraResult \<Rightarrow>
             if \<not> success dijkstraResult then Some (Inr notFound)
             else if distances dijkstraResult ! nat dest = PosInf then Some (Inr notFound)
             else
               (case reconstructPath source dest (predecessors dijkstraResult) of
                  None \<Rightarrow> None
                | Some p \<Rightarrow>
                    (case roadNamesAlong g p of
                       Inl e \<Rightarrow> Some (Inl e)
                     | Inr names \<Rightarrow>
                         Some (Inr \<lparr>path = p,
                                    totalDistance = distances dijkstraResult ! nat dest,
                                    estimatedTime =
                                      calculateETA (distances dijkstraResult ! nat dest) 40,
                                    roadNames = names,
                                    found = True\<rparr>)))))"

section \<open>DriverManager (driver\_manager.h, driver\_manager.cpp)\<close>

text \<open>
  A log line is kept as the sequence of items streamed into it: text, integers, counts and
  doubles printed in fixed notation with a precision. Rendering a number as text is the
  stream library's work and is not modelled.
\<close>

datatype LogItem = Str string | Num int | Count nat | Fixed nat double

type_synonym LogLine = "LogItem list"

text \<open>\<open>Driver::id\<close> and \<open>Driver::name\<close> carry the prefix \<open>driver\<close>.\<close>

record Driver =
  driverId :: string
  driverName :: string
  currentLocation :: int
  isAvailable :: bool
  vehicleType :: string
  rating :: double
  completedRides :: int

text \<open>The default-constructed \<open>Driver()\<close>.\<close>

definition defaultDriver :: Driver where
  "defaultDriver =
     \<lparr>driverId = [], driverName = [], currentLocation = 0, isAvailable = True,
      vehicleType = ''Sedan'', rating = Fin 5, completedRides = 0\<rparr>"

record NearestDriverResult =
  driver :: Driver
  nearestDistance :: double
  pathToPassenger :: "int list"
  nearestFound :: bool

text \<open>
  The hash map \<open>drivers\<close> is an association list in the map's iteration order, which the
  library chooses: a registry state is any such list whose keys are distinct and are the
  ids of the drivers they lead to. Updating a value in place keeps the order.
\<close>

record DriverManager =
  drivers :: "(string \<times> Driver) list"
  operationLogs :: "LogLine list"

definition driversOk :: "DriverManager \<Rightarrow> bool" where
  "driversOk dm =
     (distinct (map fst (drivers dm)) \<and> list_all (\<lambda>(k, d). driverId d = k) (drivers dm))"

text \<open>The constructor \<open>Driver(driverId, driverName, location, vehicle, rate)\<close>.\<close>

definition newDriver :: "string \<Rightarrow> string \<Rightarrow> int \<Rightarrow> string \<Rightarrow> double \<Rightarrow> Driver" where
  "newDriver ident name location vehicle rate =
     \<lparr>driverId = ident, driverName = name, currentLocation = location, isAvailable = True,
      vehicleType = vehicle, rating = rate, completedRides = 0\<rparr>"

text \<open>
  \<open>addDriver\<close>. Where a new entry stands in the iteration order of the hash map is the
  library's choice: \<open>place\<close> enters it among the entries that are there.
\<close>

definition addDriver ::
  "((string \<times> Driver) list \<Rightarrow> string \<times> Driver \<Rightarrow> (string \<times> Driver) list) \<Rightarrow>
   DriverManager \<Rightarrow> Driver \<Rightarrow> bool \<times> DriverManager" where
  "addDriver place dm d =
     (case map_of (drivers dm) (driverId d) of
        Some x \<Rightarrow>
          (False,
           dm\<lparr>operationLogs := operationLogs dm @
                 [[Str ''Failed to add driver '', Str (driverId d), Str '': already exists'']]\<rparr>)
      | None \<Rightarrow>
          (True,
           dm\<lparr>drivers := place (drivers dm) (driverId d, d),
               operationLogs := operationLogs dm @
                 [[Str ''Added driver '', Str (driverId d), Str '' ('', Str (driverName d),
                   Str '') at location '', Num (currentLocation d)]]\<rparr>))"

definition getDriver :: "DriverManager \<Rightarrow> string \<Rightarrow> Driver option" where
  "getDriver dm ident = map_of (drivers dm) ident"

definition updateDriverAvailability :: "DriverManager \<Rightarrow> string \<Rightarrow> bool \<Rightarrow> bool \<times> DriverManager" where
  "updateDriverAvailability dm ident available =
     (case map_of (drivers dm) ident of
        None \<Rightarrow>
          (False,
           dm\<lparr>operationLogs := operationLogs dm @
                 [[Str ''Failed to update availability for driver '', Str ident,
                   Str '': not found'']]\<rparr>)
      | Some d \<Rightarrow>
          (True,
           dm\<lparr>drivers := map (\<lambda>(k, x). if k = ident then (k, x\<lparr>isAvailable := available\<rparr>)
                                         else (k, x)) (drivers dm),
               operationLogs := operationLogs dm @
                 [[Str ''Updated driver '', Str ident, Str '' availability to '',
                   Str (if available then ''available'' else ''busy'')]]\<rparr>))"

definition updateDriverLocation :: "DriverManager \<Rightarrow> string \<Rightarrow> int \<Rightarrow> bool \<times> DriverManager" where
  "updateDriverLocation dm ident newLocation =
     (case map_of (drivers dm) ident of
        None \<Rightarrow>
          (False,
           dm\<lparr>operationLogs := operationLogs dm @
                 [[Str ''Failed to update location for driver '', Str ident,
                   Str '': not found'']]\<rparr>)
      | Some d \<Rightarrow>
          (True,
           dm\<lparr>drivers := map (\<lambda>(k, x). if k = ident then (k, x\<lparr>currentLocation := newLocation\<rparr>)
                                         else (k, x)) (drivers dm),
               operationLogs := operationLogs dm @
                 [[Str ''Updated driver '', Str ident, Str '' location from '',
                   Num (currentLocation d), Str '' to '', Num newLocation]]\<rparr>))"

definition getAvailableDrivers :: "DriverManager \<Rightarrow> Driver list" where
  "getAvailableDrivers dm = map snd (filter (\<lambda>(k, d). isAvailable d) (drivers dm))"

definition getAllDrivers :: "DriverManager \<Rightarrow> Driver list" where
  "getAllDrivers dm = map snd (drivers dm)"

section \<open>RideMatcher (ride\_matcher.h, ride\_matcher.cpp)\<close>

record RideRequest =
  requestId :: string
  pickupLocation :: int
  destinationLocation :: int
  passengerId :: string
  timestamp :: nat

text \<open>
  The result of \<open>processRequest\<close>. \<open>success\<close>, \<open>errorMessage\<close> and \<open>totalDistance\<close>
  carry the prefix \<open>match\<close>; the copies of the Dijkstra and heap logs are left out.
\<close>

record RideMatchResult =
  matchSuccess :: bool
  matchErrorMessage :: string
  assignedDriver :: Driver
  driverToPickupDistance :: double
  driverToPickupPath :: "int list"
  driverToPickupETA :: double
  pickupToDestinationPath :: "int list"
  pickupToDestinationDistance :: double
  pickupToDestinationETA :: double
  matchTotalDistance :: double
  totalETA :: double
  matchingLogs :: "LogLine list"

definition emptyMatchResult :: RideMatchResult where
  "emptyMatchResult =
     \<lparr>matchSuccess = False, matchErrorMessage = [], assignedDriver = defaultDriver,
      driverToPickupDistance = 0, driverToPickupPath = [], driverToPickupETA = 0,
      pickupToDestinationPath = [], pickupToDestinationDistance = 0,
      pickupToDestinationETA = 0, matchTotalDistance = 0, totalETA = 0,
      matchingLogs = []\<rparr>"

record DemandStats =
  totalRequests :: int
  successfulMatches :: int
  failedMatches :: int
  avgWaitTime :: double
  hotspots :: "int list"

definition emptyDemandStats :: DemandStats where
  "emptyDemandStats =
     \<lparr>totalRequests = 0, successfulMatches = 0, failedMatches = 0, avgWaitTime = 0,
      hotspots = []\<rparr>"

text \<open>
  The result of \<open>findRide\<close>; the fields it shares with other results carry the prefix
  \<open>ride\<close>. \<open>estimatedTime\<close> is the result of a cast: \<open>None\<close> where the cast is undefined.
\<close>

record RideMatch =
  rideSuccess :: bool
  message :: string
  rideDriver :: Driver
  distanceToPickup :: double
  distanceToDestination :: double
  rideTotalDistance :: double
  rideEstimatedTime :: "int option"
  pathToPickup :: "int list"
  pathToDestination :: "int list"

definition emptyRideMatch :: RideMatch where
  "emptyRideMatch =
     \<lparr>rideSuccess = False, message = [], rideDriver = defaultDriver, distanceToPickup = 0,
      distanceToDestination = 0, rideTotalDistance = 0, rideEstimatedTime = Some 0,
      pathToPickup = [], pathToDestination = []\<rparr>"

text \<open>
  The matcher holds a pointer to a graph it does not own; the model keeps the graph
  beside the matcher's own state.
\<close>

record RideMatcher =
  graph :: Graph
  driverManager :: DriverManager
  rideRequestQueue :: "RideRequest list"
  recentRequests :: "RideRequest list"
  systemLogs :: "LogLine list"

definition SLIDING_WINDOW_SIZE :: nat where
  "SLIDING_WINDOW_SIZE = 20"

definition newRideMatcher :: "Graph \<Rightarrow> RideMatcher" where
  "newRideMatcher g =
     \<lparr>graph = g, driverManager = \<lparr>drivers = [], operationLogs = []\<rparr>,
      rideRequestQueue = [], recentRequests = [], systemLogs = []\<rparr>"

definition logOperation :: "RideMatcher \<Rightarrow> LogLine \<Rightarrow> RideMatcher" where
  "logOperation rm line = rm\<lparr>systemLogs := systemLogs rm @ [line]\<rparr>"

text \<open>\<open>RideMatcher::addDriver\<close> hands the driver to the registry.\<close>

definition matcherAddDriver ::
  "((string \<times> Driver) list \<Rightarrow> string \<times> Driver \<Rightarrow> (string \<times> Driver) list) \<Rightarrow>
   RideMatcher \<Rightarrow> Driver \<Rightarrow> RideMatcher" where
  "matcherAddDriver place rm d =
     rm\<lparr>driverManager := snd (addDriver place (driverManager rm) d)\<rparr>"

text \<open>The \<open>while\<close> loop of \<open>updateSlidingWindow\<close>, which drops the oldest requests.\<close>

function evictOldest :: "RideRequest list \<Rightarrow> RideRequest list" where
  "evictOldest window =
     (if length window > SLIDING_WINDOW_SIZE then evictOldest (tl window) else window)"
  by pat_completeness auto
termination
  by (relation "measure length") auto

declare evictOldest.simps [simp del]

definition updateSlidingWindow :: "RideMatcher \<Rightarrow> RideRequest \<Rightarrow> RideMatcher" where
  "updateSlidingWindow rm request =
     rm\<lparr>recentRequests := evictOldest (recentRequests rm @ [request])\<rparr>"

definition addRideRequest :: "RideMatcher \<Rightarrow> RideRequest \<Rightarrow> RideMatcher" where
  "addRideRequest rm request =
     (let rm1 = rm\<lparr>rideRequestQueue := rideRequestQueue rm @ [request]\<rparr>;
          rm2 = updateSlidingWindow rm1 request
      in logOperation rm2
           [Str ''Added ride request '', Str (requestId request),
            Str '' (pickup: '', Num (pickupLocation request),
            Str '', destination: '', Num (destinationLocation request), Str '')''])"

text \<open>
  The loop of \<open>findNearestDriver\<close> over the available drivers. Its state is the least
  distance so far, the driver that has it (the pointer \<open>nearestDriver\<close>, null at first),
  that driver's path and the system log.
\<close>

fun nearestLoop ::
  "Graph \<Rightarrow> int \<Rightarrow> Driver list \<Rightarrow> double \<times> Driver option \<times> int list \<times> LogLine list \<Rightarrow>
   (error + double \<times> Driver option \<times> int list \<times> LogLine list) option" where
  "nearestLoop g pickup [] st = Some (Inr st)"
| "nearestLoop g pickup (d # rest) (minDistance, nearestDriver, bestPath, logs) =
     (case findShortestPath g (currentLocation d) pickup of
        None \<Rightarrow> None
      | Some (Inl e) \<Rightarrow> Some (Inl e)
      | Some (Inr p) \<Rightarrow>
          if found p \<and> totalDistance p < minDistance
          then nearestLoop g pickup rest
                 (totalDistance p, Some d, path p,
                  logs @ [[Str ''  Driver '', Str (driverId d), Str '' at location '',
                           Num (currentLocation d), Str '' has distance '',
                           Fixed 2 (totalDistance p), Str '' km to pickup'']])
          else nearestLoop g pickup rest (minDistance, nearestDriver, bestPath, logs))"

definition notFoundDriver :: NearestDriverResult where
  "notFoundDriver =
     \<lparr>driver = defaultDriver, nearestDistance = 0, pathToPassenger = [], nearestFound = False\<rparr>"

definition findNearestDriver ::
  "RideMatcher \<Rightarrow> int \<Rightarrow> (error + NearestDriverResult \<times> RideMatcher) option" where
  "findNearestDriver rm pickup =
     (let availableDrivers = getAvailableDrivers (driverManager rm)
      in if availableDrivers = []
         then Some (Inr (notFoundDriver, logOperation rm [Str ''No available drivers found'']))
         else
           let rm1 = logOperation rm
                       [Str ''Searching for nearest driver among '',
                        Count (length availableDrivers),
                        Str '' available drivers using Greedy approach'']
           in (case nearestLoop (graph rm) pickup availableDrivers
                      (PosInf, None, [], systemLogs rm1) of
                 None \<Rightarrow> None
               | Some (Inl e) \<Rightarrow> Some (Inl e)
               | Some (Inr (minDistance, nearestDriver, bestPath, logs)) \<Rightarrow>
                   (case nearestDriver of
                      Some d \<Rightarrow>
                        Some (Inr (\<lparr>driver = d, nearestDistance = minDistance,
                                    pathToPassenger = bestPath, nearestFound = True\<rparr>,
                                   rm1\<lparr>systemLogs := logs @
                                     [[Str ''Selected nearest driver: '', Str (driverId d),
                                       Str '' (distance: '', Fixed 2 minDistance,
                                       Str '' km)'']]\<rparr>))
                    | None \<Rightarrow>
                        Some (Inr (notFoundDriver,
                                   rm1\<lparr>systemLogs := logs @
                                     [[Str ''Could not find reachable driver'']]\<rparr>)))))"

definition failWith :: "string \<Rightarrow> RideMatchResult" where
  "failWith msg = emptyMatchResult\<lparr>matchSuccess := False, matchErrorMessage := msg\<rparr>"

definition processRequest ::
  "RideMatcher \<Rightarrow> RideRequest \<Rightarrow> (error + RideMatchResult \<times> RideMatcher) option" where
  "processRequest rm0 request =
     (let rm = logOperation (rm0\<lparr>systemLogs := []\<rparr>)
                 [Str ''Processing ride request '', Str (requestId request)]
      in if \<not> nodeExists (graph rm) (pickupLocation request)
         then Some (Inr (failWith ''Invalid pickup location'',
                         logOperation rm [Str ''Error: Invalid pickup location'']))
         else if \<not> nodeExists (graph rm) (destinationLocation request)
         then Some (Inr (failWith ''Invalid destination location'',
                         logOperation rm [Str ''Error: Invalid destination location'']))
         else if pickupLocation request = destinationLocation request
         then Some (Inr (failWith ''Pickup and destination cannot be the same'',
                         logOperation rm [Str ''Error: Pickup and destination are the same'']))
         else
           (case findNearestDriver rm (pickupLocation request) of
              None \<Rightarrow> None
            | Some (Inl e) \<Rightarrow> Some (Inl e)
            | Some (Inr (nearest, rm1)) \<Rightarrow>
                if \<not> nearestFound nearest
                then Some (Inr (failWith ''No available drivers found'',
                                logOperation rm1 [Str ''Error: No available drivers'']))
                else
                  (case findShortestPath (graph rm1) (pickupLocation request)
                          (destinationLocation request) of
                     None \<Rightarrow> None
                   | Some (Inl e) \<Rightarrow> Some (Inl e)
                   | Some (Inr pickupToDestPath) \<Rightarrow>
                       if \<not> found pickupToDestPath
                       then Some (Inr (failWith ''No route found from pickup to destination'',
                                       logOperation rm1
                                         [Str ''Error: No route from pickup to destination'']))
                       else
                         let eta1 = calculateETA (nearestDistance nearest) 40;
                             total = nearestDistance nearest + totalDistance pickupToDestPath;
                             eta = eta1 + estimatedTime pickupToDestPath;
                             result =
                               \<lparr>matchSuccess = True, matchErrorMessage = [],
                                assignedDriver = driver nearest,
                                driverToPickupDistance = nearestDistance nearest,
                                driverToPickupPath = pathToPassenger nearest,
                                driverToPickupETA = eta1,
                                pickupToDestinationPath = path pickupToDestPath,
                                pickupToDestinationDistance = totalDistance pickupToDestPath,
                                pickupToDestinationETA = estimatedTime pickupToDestPath,
                                matchTotalDistance = total, totalETA = eta,
                                matchingLogs = systemLogs rm1\<rparr>;
                             dm = snd (updateDriverAvailability (driverManager rm1)
                                         (driverId (assignedDriver result)) False);
                             rm2 = rm1\<lparr>driverManager := dm\<rparr>
                         in Some (Inr (result,
                                       logOperation rm2
                                         [Str ''Ride matched successfully. Total distance: '',
                                          Fixed 2 total, Str '' km, Total ETA: '',
                                          Fixed 1 eta, Str '' min''])))))"

definition processNextRequest ::
  "RideMatcher \<Rightarrow> (error + RideMatchResult \<times> RideMatcher) option" where
  "processNextRequest rm =
     (case rideRequestQueue rm of
        [] \<Rightarrow> Some (Inr (failWith ''No pending ride requests'', rm))
      | request # rest \<Rightarrow> processRequest (rm\<lparr>rideRequestQueue := rest\<rparr>) request)"

text \<open>
  \<open>static_cast<int>\<close> of a double truncates towards zero. The cast of infinity, or of a
  number whose truncation is outside the range of a 32-bit \<open>int\<close>, is undefined in C++:
  \<open>None\<close>.
\<close>

fun toInt :: "double \<Rightarrow> int option" where
  "toInt (Fin x) =
     (let n = (if 0 \<le> x then \<lfloor>x\<rfloor> else \<lceil>x\<rceil>)
      in if - 2147483648 \<le> n \<and> n \<le> 2147483647 then Some n else None)"
| "toInt PosInf = None"

definition findRide ::
  "RideMatcher \<Rightarrow> RideRequest \<Rightarrow> (error + RideMatch \<times> RideMatcher) option" where
  "findRide rm request =
     (case findNearestDriver rm (pickupLocation request) of
        None \<Rightarrow> None
      | Some (Inl e) \<Rightarrow> Some (Inl e)
      | Some (Inr (nearest, rm1)) \<Rightarrow>
          if \<not> nearestFound nearest
          then Some (Inr (emptyRideMatch\<lparr>rideSuccess := False,
                                          message := ''No available drivers found''\<rparr>, rm1))
          else
            (case findShortestPath (graph rm1) (currentLocation (driver nearest))
                    (pickupLocation request) of
               None \<Rightarrow> None
             | Some (Inl e) \<Rightarrow> Some (Inl e)
             | Some (Inr driverToPickup) \<Rightarrow>
                 (case findShortestPath (graph rm1) (pickupLocation request)
                         (destinationLocation request) of
                    None \<Rightarrow> None
                  | Some (Inl e) \<Rightarrow> Some (Inl e)
                  | Some (Inr pickupToDestination) \<Rightarrow>
                      if \<not> found driverToPickup \<or> \<not> found pickupToDestination
                      then Some (Inr (emptyRideMatch\<lparr>rideSuccess := False,
                                                      message := ''No valid path found''\<rparr>, rm1))
                      else
                        let total = totalDistance driverToPickup
                                    + totalDistance pickupToDestination;
                            match =
                              \<lparr>rideSuccess = True, message = ''Ride matched successfully'',
                               rideDriver = driver nearest,
                               distanceToPickup = totalDistance driverToPickup,
                               distanceToDestination = totalDistance pickupToDestination,
                               rideTotalDistance = total,
                               rideEstimatedTime = toInt (calculateETA total 40),
                               pathToPickup = path driverToPickup,
                               pathToDestination = path pickupToDestination\<rparr>;
                            dm = snd (updateDriverAvailability (driverManager rm1)
                                        (driverId (driver nearest)) False)
                        in Some (Inr (match, rm1\<lparr>driverManager := dm\<rparr>)))))"

text \<open>
  \<open>analyzeDemand\<close> counts the pickups in a \<open>std::unordered_map\<close> and orders the entries with
  \<open>std::sort\<close>. Two choices there belong to the standard library and not to this program:
  where a new key lands in the map's iteration order, and how \<open>std::sort\<close> (which is not
  stable) orders entries that compare equal. The model takes both as parameters: the map
  is an association list in iteration order, \<open>hashInsert\<close> places a new entry, and
  \<open>stdSort\<close> sorts with a comparator.
\<close>

record StdLib =
  hashInsert :: "(int \<times> int) list \<Rightarrow> int \<times> int \<Rightarrow> (int \<times> int) list"
  stdSort :: "(int \<times> int \<Rightarrow> int \<times> int \<Rightarrow> bool) \<Rightarrow> (int \<times> int) list \<Rightarrow> (int \<times> int) list"

text \<open>The comparator of \<open>analyzeDemand\<close>: \<open>a.second > b.second\<close>.\<close>

definition byFrequency :: "int \<times> int \<Rightarrow> int \<times> int \<Rightarrow> bool" where
  "byFrequency a b = (snd a > snd b)"

text \<open>
  What the library promises: a new key joins the entries that are there, and the sorted
  range is a permutation in which no element is ordered before an earlier one.
\<close>

definition stdLibOk :: "StdLib \<Rightarrow> bool" where
  "stdLibOk L =
     ((\<forall>m kv. mset (hashInsert L m kv) = add_mset kv (mset m)) \<and>
      (\<forall>xs. mset (stdSort L byFrequency xs) = mset xs \<and>
            sorted_wrt (\<lambda>a b. \<not> byFrequency b a) (stdSort L byFrequency xs)))"

text \<open>\<open>locationFrequency[k]++\<close>: a missing key is first entered with count 0.\<close>

definition increment :: "StdLib \<Rightarrow> (int \<times> int) list \<Rightarrow> int \<Rightarrow> (int \<times> int) list" where
  "increment L m k =
     (let m1 = (if map_of m k = None then hashInsert L m (k, 0) else m)
      in map (\<lambda>(k', c). if k' = k then (k', c + 1) else (k', c)) m1)"

fun countPickups :: "StdLib \<Rightarrow> RideRequest list \<Rightarrow> (int \<times> int) list \<Rightarrow> (int \<times> int) list" where
  "countPickups L [] m = m"
| "countPickups L (request # rest) m =
     countPickups L rest (increment L m (pickupLocation request))"

definition analyzeDemand :: "StdLib \<Rightarrow> RideMatcher \<Rightarrow> DemandStats" where
  "analyzeDemand L rm =
     (let stats = emptyDemandStats\<lparr>totalRequests := int (length (recentRequests rm))\<rparr>
      in if recentRequests rm = [] then stats
         else
           let locationFrequency = countPickups L (recentRequests rm) [];
               sortedLocations = stdSort L byFrequency locationFrequency
           in stats\<lparr>hotspots :=
                 map fst (take (min 3 (length sortedLocations)) sortedLocations)\<rparr>)"

section \<open>Specification vocabulary\<close>

subsection \<open>Heap invariants and sequences of heap operations\<close>

text \<open>
  \<open>idx_ok\<close>: the position index and the heap array mirror each other. \<open>heap_order\<close>: no
  node is smaller than its parent. \<open>up_inv\<close> and \<open>down_inv\<close> are the order with one
  hole, as \<open>heapifyUp\<close> and \<open>heapifyDown\<close> find it at slot \<open>i\<close>.
\<close>

definition idx_ok :: "MinHeap \<Rightarrow> bool" where
  "idx_ok h =
     ((\<forall>i<length (heap h). positions h (vertex (heap h ! i)) = Some i) \<and>
      (\<forall>v i. positions h v = Some i \<longrightarrow> i < length (heap h) \<and> vertex (heap h ! i) = v))"

definition heap_order :: "HeapNode list \<Rightarrow> bool" where
  "heap_order hp =
     (\<forall>i. 0 < i \<and> i < length hp \<longrightarrow> distance (hp ! parent i) \<le> distance (hp ! i))"

definition up_inv :: "HeapNode list \<Rightarrow> nat \<Rightarrow> bool" where
  "up_inv hp i =
     ((\<forall>j. 0 < j \<and> j < length hp \<and> j \<noteq> i \<longrightarrow> distance (hp ! parent j) \<le> distance (hp ! j)) \<and>
      (\<forall>j. 0 < j \<and> j < length hp \<and> parent j = i \<and> 0 < i \<longrightarrow>
           distance (hp ! parent i) \<le> distance (hp ! j)))"

definition down_inv :: "HeapNode list \<Rightarrow> nat \<Rightarrow> bool" where
  "down_inv hp i =
     ((\<forall>j. 0 < j \<and> j < length hp \<and> parent j \<noteq> i \<longrightarrow> distance (hp ! parent j) \<le> distance (hp ! j)) \<and>
      (\<forall>j. 0 < j \<and> j < length hp \<and> parent j = i \<and> 0 < i \<longrightarrow>
           distance (hp ! parent i) \<le> distance (hp ! j)))"

text \<open>The index \<open>heapifyDown\<close> picks, and the heap \<open>extractMin\<close> hands to it.\<close>

definition minIndexOf :: "HeapNode list \<Rightarrow> nat \<Rightarrow> nat" where
  "minIndexOf hp i =
     (let left = leftChild i;
          right = rightChild i;
          minIndex1 = (if left < length hp \<and> distance (hp ! left) < distance (hp ! i)
                       then left else i)
      in if right < length hp \<and> distance (hp ! right) < distance (hp ! minIndex1)
         then right else minIndex1)"

definition heap_inv :: "MinHeap \<Rightarrow> bool" where
  "heap_inv h = (idx_ok h \<and> heap_order (heap h))"

definition popRoot :: "MinHeap \<Rightarrow> MinHeap" where
  "popRoot h =
     h\<lparr>heap := butlast ((heap h)[0 := last (heap h)]),
       positions := ((positions h)(vertex (last (heap h)) \<mapsto> 0))(vertex (heap h ! 0) := None)\<rparr>"






subsection \<open>Request sequences, the demand window and the library\<close>

text \<open>Enqueuing a sequence of requests, one \<open>addRideRequest\<close> after the other.\<close>

fun enqueueAll :: "RideMatcher \<Rightarrow> RideRequest list \<Rightarrow> RideMatcher" where
  "enqueueAll rm [] = rm"
| "enqueueAll rm (request # rest) = enqueueAll (addRideRequest rm request) rest"

text \<open>
  The frequency of a pickup location in a window, and the invariant of the counting loop:
  the map holds each location of the prefix \<open>ps\<close> once, with its count in \<open>ps\<close>.
\<close>

definition frequency :: "RideRequest list \<Rightarrow> int \<Rightarrow> int" where
  "frequency window x = int (length (filter (\<lambda>r. pickupLocation r = x) window))"

definition countsOk :: "(int \<times> int) list \<Rightarrow> int list \<Rightarrow> bool" where
  "countsOk m ps =
     (distinct (map fst m) \<and> set m = (\<lambda>k. (k, int (count_list ps k))) ` set ps)"

text \<open>
  One library that keeps the promise \<open>stdLibOk\<close>: a new key goes to the front of the
  iteration order, and sorting is by insertion, an element going before the ones it
  compares equal to.
\<close>

fun insertBy :: "('a \<Rightarrow> 'a \<Rightarrow> bool) \<Rightarrow> 'a \<Rightarrow> 'a list \<Rightarrow> 'a list" where
  "insertBy cmp x [] = [x]"
| "insertBy cmp x (y # ys) = (if cmp y x then y # insertBy cmp x ys else x # y # ys)"

fun insertionSort :: "('a \<Rightarrow> 'a \<Rightarrow> bool) \<Rightarrow> 'a list \<Rightarrow> 'a list" where
  "insertionSort cmp [] = []"
| "insertionSort cmp (x # xs) = insertBy cmp x (insertionSort cmp xs)"

definition listLib :: StdLib where
  "listLib = \<lparr>hashInsert = (\<lambda>m kv. kv # m), stdSort = insertionSort\<rparr>"

text \<open>
  A second library that keeps the promise: a new key goes to the end of the iteration
  order, and sorting is the same.
\<close>

definition appendLib :: StdLib where
  "appendLib = \<lparr>hashInsert = (\<lambda>m kv. m @ [kv]), stdSort = insertionSort\<rparr>"

text \<open>
  The graph of the scenarios: four locations \<open>0, 1, 2, 3\<close> and the two-way roads
  \<open>0-1\<close> (weight 2), \<open>1-2\<close> (weight 2), \<open>2-3\<close> (weight 1) and \<open>0-2\<close> (weight 5),
  added in this order.
\<close>

definition city4 :: Graph where
  "city4 =
     \<lparr>numVertices = 4,
      adjacencyList =
        [[\<lparr>destination = 1, weight = Fin 2, roadName = []\<rparr>,
          \<lparr>destination = 2, weight = Fin 5, roadName = []\<rparr>],
         [\<lparr>destination = 0, weight = Fin 2, roadName = []\<rparr>,
          \<lparr>destination = 2, weight = Fin 2, roadName = []\<rparr>],
         [\<lparr>destination = 1, weight = Fin 2, roadName = []\<rparr>,
          \<lparr>destination = 3, weight = Fin 1, roadName = []\<rparr>,
          \<lparr>destination = 0, weight = Fin 5, roadName = []\<rparr>],
         [\<lparr>destination = 2, weight = Fin 1, roadName = []\<rparr>]],
      nodes = [0 \<mapsto> \<lparr>nodeId = 0, nodeName = ''A'', latitude = 0, longitude = 0\<rparr>,
               1 \<mapsto> \<lparr>nodeId = 1, nodeName = ''B'', latitude = 0, longitude = 0\<rparr>,
               2 \<mapsto> \<lparr>nodeId = 2, nodeName = ''C'', latitude = 0, longitude = 0\<rparr>,
               3 \<mapsto> \<lparr>nodeId = 3, nodeName = ''D'', latitude = 0, longitude = 0\<rparr>]\<rparr>"

text \<open>A request with pickup \<open>i\<close>, and a matcher whose window holds the given pickups.\<close>

definition request :: "int \<Rightarrow> RideRequest" where
  "request i = \<lparr>requestId = ''R'', pickupLocation = i, destinationLocation = i + 1,
                passengerId = ''P'', timestamp = nat i\<rparr>"

definition windowOf :: "int list \<Rightarrow> RideMatcher" where
  "windowOf ps = (newRideMatcher city4)\<lparr>recentRequests := map request ps\<rparr>"

subsection \<open>Well-formed graphs, walks and the invariant of the search\<close>

text \<open>
  What the graph operations keep: the vertex count is not negative, there is one adjacency
  list per vertex, \<open>validate\<close> holds, and every registered location is a vertex.
\<close>

definition inRange :: "Graph \<Rightarrow> int \<Rightarrow> bool" where
  "inRange g v = (0 \<le> v \<and> v < numVertices g)"

definition graphOk :: "Graph \<Rightarrow> bool" where
  "graphOk g =
     (0 \<le> numVertices g \<and> length (adjacencyList g) = nat (numVertices g) \<and> validate g
      \<and> dom (nodes g) \<subseteq> {0..<numVertices g})"

text \<open>
  A walk from \<open>u\<close> is the list of edges taken, each from the adjacency list of the vertex
  the walk has reached. Its weight is the sum of the edge weights as the search adds
  them: in \<open>double\<close> arithmetic, from 0, one edge after the other in the order of the walk.
  \<open>exactWeight\<close> is the sum of the same weights as real numbers.
\<close>

fun isWalk :: "Graph \<Rightarrow> int \<Rightarrow> Edge list \<Rightarrow> bool" where
  "isWalk g u [] = inRange g u"
| "isWalk g u (e # es) =
     (inRange g u \<and> e \<in> set (adjacencyList g ! nat u) \<and> isWalk g (destination e) es)"

fun walkEnd :: "int \<Rightarrow> Edge list \<Rightarrow> int" where
  "walkEnd u [] = u"
| "walkEnd u (e # es) = walkEnd (destination e) es"

definition walkWeight :: "Edge list \<Rightarrow> double" where
  "walkWeight es = foldl (+) 0 (map weight es)"

fun valueOf :: "double \<Rightarrow> real" where
  "valueOf (Fin x) = x"
| "valueOf PosInf = 0"

definition exactWeight :: "Edge list \<Rightarrow> real" where
  "exactWeight es = sum_list (map (\<lambda>e. valueOf (weight e)) es)"

text \<open>The numbers that are \<open>double\<close>s.\<close>

definition representable :: "real \<Rightarrow> bool" where
  "representable x = (rnd x = x \<and> \<bar>x\<bar> < 2 ^ 1024)"

fun isDouble :: "double \<Rightarrow> bool" where
  "isDouble (Fin x) = representable x"
| "isDouble PosInf = True"

definition walkNodes :: "int \<Rightarrow> Edge list \<Rightarrow> int list" where
  "walkNodes u es = u # map destination es"

text \<open>The state of the search, read at a vertex.\<close>

abbreviation dAt :: "DijkstraResult \<Rightarrow> int \<Rightarrow> double" where
  "dAt r v \<equiv> distances r ! nat v"

abbreviation pAt :: "DijkstraResult \<Rightarrow> int \<Rightarrow> int" where
  "pAt r v \<equiv> predecessors r ! nat v"

definition queued :: "MinHeap \<Rightarrow> int set" where
  "queued pq = vertex ` set (heap pq)"

text \<open>A vertex is settled when it has a finite distance and is no longer in the heap.\<close>

definition settled :: "Graph \<Rightarrow> DijkstraResult \<Rightarrow> MinHeap \<Rightarrow> int set" where
  "settled g r pq = {v. inRange g v \<and> dAt r v \<noteq> PosInf \<and> v \<notin> queued pq}"

definition shape :: "Graph \<Rightarrow> int \<Rightarrow> DijkstraResult \<Rightarrow> bool" where
  "shape g s r =
     (length (distances r) = nat (numVertices g) \<and> length (predecessors r) = nat (numVertices g)
      \<and> inRange g s \<and> dAt r s = 0 \<and> pAt r s = - 1 \<and> success r)"

definition heapAgrees :: "Graph \<Rightarrow> DijkstraResult \<Rightarrow> MinHeap \<Rightarrow> bool" where
  "heapAgrees g r pq =
     (\<forall>e \<in> set (heap pq). inRange g (vertex e) \<and> dAt r (vertex e) = distance e
                          \<and> distance e \<noteq> PosInf)"

definition reached :: "Graph \<Rightarrow> int \<Rightarrow> DijkstraResult \<Rightarrow> bool" where
  "reached g s r =
     (\<forall>v. inRange g v \<and> dAt r v \<noteq> PosInf \<longrightarrow>
          0 \<le> dAt r v \<and> isDouble (dAt r v)
          \<and> (\<exists>es. isWalk g s es \<and> walkEnd s es = v \<and> walkWeight es = dAt r v))"

text \<open>Every edge that leaves a settled vertex is relaxed, but for the pending ones in \<open>X\<close>.\<close>

definition relaxed :: "Graph \<Rightarrow> DijkstraResult \<Rightarrow> MinHeap \<Rightarrow> (int \<times> Edge) set \<Rightarrow> bool" where
  "relaxed g r pq X =
     (\<forall>u \<in> settled g r pq. \<forall>e \<in> set (adjacencyList g ! nat u).
        (u, e) \<notin> X \<longrightarrow> dAt r (destination e) \<le> dAt r u + weight e)"

definition settledFirst :: "Graph \<Rightarrow> DijkstraResult \<Rightarrow> MinHeap \<Rightarrow> bool" where
  "settledFirst g r pq = (\<forall>u \<in> settled g r pq. \<forall>e \<in> set (heap pq). dAt r u \<le> distance e)"

definition predOk :: "Graph \<Rightarrow> int \<Rightarrow> DijkstraResult \<Rightarrow> MinHeap \<Rightarrow> bool" where
  "predOk g s r pq =
     (\<forall>v. inRange g v \<and> v \<noteq> s \<and> dAt r v \<noteq> PosInf \<longrightarrow>
          pAt r v \<in> settled g r pq
          \<and> (\<exists>e \<in> set (adjacencyList g ! nat (pAt r v)).
                destination e = v \<and> dAt r v = dAt r (pAt r v) + weight e))"

text \<open>\<open>chain preds s v k\<close>: \<open>k\<close> steps along the predecessors lead from \<open>v\<close> to \<open>s\<close>.\<close>

fun chain :: "int list \<Rightarrow> int \<Rightarrow> int \<Rightarrow> nat \<Rightarrow> bool" where
  "chain preds s v 0 = (v = s \<and> 0 \<le> v \<and> nat v < length preds)"
| "chain preds s v (Suc k) =
     (v \<noteq> s \<and> 0 \<le> v \<and> nat v < length preds \<and> chain preds s (preds ! nat v) k)"

fun chainList :: "int list \<Rightarrow> int \<Rightarrow> nat \<Rightarrow> int list" where
  "chainList preds v 0 = [v]"
| "chainList preds v (Suc k) = v # chainList preds (preds ! nat v) k"

definition chained :: "Graph \<Rightarrow> int \<Rightarrow> DijkstraResult \<Rightarrow> bool" where
  "chained g s r =
     (\<forall>v. inRange g v \<and> dAt r v \<noteq> PosInf \<longrightarrow> (\<exists>k. chain (predecessors r) s v k))"

definition dijkstraInv ::
  "Graph \<Rightarrow> int \<Rightarrow> DijkstraResult \<Rightarrow> MinHeap \<Rightarrow> (int \<times> Edge) set \<Rightarrow> bool" where
  "dijkstraInv g s r pq X =
     (heap_inv pq \<and> shape g s r \<and> heapAgrees g r pq \<and> reached g s r \<and> relaxed g r pq X
      \<and> settledFirst g r pq \<and> predOk g s r pq \<and> chained g s r)"

text \<open>The invariant of the inner loop, while the edges \<open>pend\<close> of \<open>u\<close> are still to come.\<close>

definition relaxInv ::
  "Graph \<Rightarrow> int \<Rightarrow> int \<Rightarrow> Edge list \<Rightarrow> DijkstraResult \<Rightarrow> MinHeap \<Rightarrow> bool" where
  "relaxInv g s u pend r pq =
     (dijkstraInv g s r pq ({u} \<times> set pend) \<and> u \<in> settled g r pq
      \<and> (\<forall>x \<in> settled g r pq. dAt r x \<le> dAt r u))"

text \<open>What the search has established when the heap is empty.\<close>

definition searchDone :: "Graph \<Rightarrow> int \<Rightarrow> DijkstraResult \<Rightarrow> bool" where
  "searchDone g s r = (\<exists>pq. dijkstraInv g s r pq {} \<and> heap pq = [])"

text \<open>
  Weights that are whole numbers: such weights are added without rounding below \<open>2 ^ 53\<close>.
\<close>

fun isWhole :: "double \<Rightarrow> bool" where
  "isWhole (Fin x) = (0 \<le> x \<and> x = of_int \<lfloor>x\<rfloor>)"
| "isWhole PosInf = False"

definition wholeWeights :: "Graph \<Rightarrow> bool" where
  "wholeWeights g = (\<forall>es \<in> set (adjacencyList g). \<forall>e \<in> set es. isWhole (weight e))"

text \<open>
  Two graphs of one-way roads on which a sum is rounded. In \<open>farRoads\<close> the road from 0 to
  2 has weight \<open>10\<^sup>1\<^sup>6 + 4\<close> and the roads from 0 to 1 and from 1 to 2 have weights 3 and
  \<open>10\<^sup>1\<^sup>6\<close>. In \<open>longRoad\<close> the roads from 0 to 1, from 1 to 2 and from 2 to 3 have weights
  \<open>10\<^sup>1\<^sup>6\<close>, 1 and 1. Between \<open>2 ^ 53\<close> and \<open>2 ^ 54\<close> the \<open>double\<close>s are the even numbers.
\<close>

definition edgeTo :: "int \<Rightarrow> double \<Rightarrow> Edge" where
  "edgeTo v w = \<lparr>destination = v, weight = w, roadName = []\<rparr>"

definition placeAt :: "int \<Rightarrow> Node" where
  "placeAt v = \<lparr>nodeId = v, nodeName = [], latitude = 0, longitude = 0\<rparr>"

definition farRoads :: Graph where
  "farRoads =
     \<lparr>numVertices = 3,
      adjacencyList =
        [[edgeTo 2 (Fin 10000000000000004), edgeTo 1 (Fin 3)],
         [edgeTo 2 (Fin 10000000000000000)],
         []],
      nodes = [0 \<mapsto> placeAt 0, 1 \<mapsto> placeAt 1, 2 \<mapsto> placeAt 2]\<rparr>"

definition longRoad :: Graph where
  "longRoad =
     \<lparr>numVertices = 4,
      adjacencyList =
        [[edgeTo 1 (Fin 10000000000000000)], [edgeTo 2 (Fin 1)], [edgeTo 3 (Fin 1)], []],
      nodes = [0 \<mapsto> placeAt 0, 1 \<mapsto> placeAt 1, 2 \<mapsto> placeAt 2, 3 \<mapsto> placeAt 3]\<rparr>"

subsection \<open>Reachable locations, nearest drivers and the scenarios of the matcher\<close>

text \<open>
  \<open>b\<close> is reachable from \<open>a\<close>: both are registered locations and a walk of finite weight
  leads from \<open>a\<close> to \<open>b\<close>. \<open>x\<close> is the shortest distance from \<open>a\<close> to \<open>b\<close>: it is finite,
  some walk has this weight and no walk has less. The weight of a walk is the sum in
  \<open>double\<close> arithmetic, as the search computes it.
\<close>

definition reaches :: "Graph \<Rightarrow> int \<Rightarrow> int \<Rightarrow> bool" where
  "reaches g a b =
     (nodeExists g a \<and> nodeExists g b
      \<and> (\<exists>es. isWalk g a es \<and> walkEnd a es = b \<and> walkWeight es \<noteq> PosInf))"

definition shortestDistance :: "Graph \<Rightarrow> int \<Rightarrow> int \<Rightarrow> double \<Rightarrow> bool" where
  "shortestDistance g a b x =
     (nodeExists g a \<and> nodeExists g b \<and> x \<noteq> PosInf
      \<and> (\<exists>es. isWalk g a es \<and> walkEnd a es = b \<and> walkWeight es = x)
      \<and> (\<forall>es. isWalk g a es \<and> walkEnd a es = b \<longrightarrow> x \<le> walkWeight es))"

text \<open>The \<open>PathResult\<close> that \<open>findShortestPath\<close> returns.\<close>

definition route :: "Graph \<Rightarrow> int \<Rightarrow> int \<Rightarrow> PathResult" where
  "route g a b = (case findShortestPath g a b of Some (Inr p) \<Rightarrow> p | _ \<Rightarrow> notFound)"

text \<open>The available drivers of a matcher, and what marking a driver busy does to the registry.\<close>

definition available :: "RideMatcher \<Rightarrow> Driver list" where
  "available rm = getAvailableDrivers (driverManager rm)"

definition markedBusy :: "string \<Rightarrow> (string \<times> Driver) list \<Rightarrow> (string \<times> Driver) list" where
  "markedBusy ident ds =
     map (\<lambda>(k, x). if k = ident then (k, x\<lparr>isAvailable := False\<rparr>) else (k, x)) ds"

text \<open>
  A second graph: the two-way roads \<open>0-1\<close> (weight 3) and \<open>2-3\<close> (weight 4) between four
  registered locations, so that no road joins \<open>0, 1\<close> to \<open>2, 3\<close>.
\<close>

definition twoTowns :: Graph where
  "twoTowns =
     \<lparr>numVertices = 4,
      adjacencyList =
        [[\<lparr>destination = 1, weight = Fin 3, roadName = []\<rparr>],
         [\<lparr>destination = 0, weight = Fin 3, roadName = []\<rparr>],
         [\<lparr>destination = 3, weight = Fin 4, roadName = []\<rparr>],
         [\<lparr>destination = 2, weight = Fin 4, roadName = []\<rparr>]],
      nodes = [0 \<mapsto> \<lparr>nodeId = 0, nodeName = ''A'', latitude = 0, longitude = 0\<rparr>,
               1 \<mapsto> \<lparr>nodeId = 1, nodeName = ''B'', latitude = 0, longitude = 0\<rparr>,
               2 \<mapsto> \<lparr>nodeId = 2, nodeName = ''C'', latitude = 0, longitude = 0\<rparr>,
               3 \<mapsto> \<lparr>nodeId = 3, nodeName = ''D'', latitude = 0, longitude = 0\<rparr>]\<rparr>"

text \<open>
  A matcher on a graph with drivers added one after the other, each new entry last in the
  iteration order; a driver with default vehicle and rating; a request from a pickup to a
  destination.
\<close>

definition atEnd :: "(string \<times> Driver) list \<Rightarrow> string \<times> Driver \<Rightarrow> (string \<times> Driver) list" where
  "atEnd m kv = m @ [kv]"

definition fleet :: "Graph \<Rightarrow> Driver list \<Rightarrow> RideMatcher" where
  "fleet g ds = fold (\<lambda>d rm. matcherAddDriver atEnd rm d) ds (newRideMatcher g)"

definition driverAt :: "string \<Rightarrow> int \<Rightarrow> Driver" where
  "driverAt ident location = newDriver ident ident location ''Sedan'' (Fin 5)"

definition trip :: "int \<Rightarrow> int \<Rightarrow> RideRequest" where
  "trip a b = \<lparr>requestId = ''R'', pickupLocation = a, destinationLocation = b,
               passengerId = ''P'', timestamp = 0\<rparr>"

text \<open>
  A graph of one-way roads that lead to location 0: from 1 by way of 2 and 3, with weights
  \<open>10\<^sup>1\<^sup>6 + 2\<close>, 0.75 and 0.75, and from 4 by way of 5, with weights \<open>10\<^sup>1\<^sup>6\<close> and 3.
  \<open>sixPlaces\<close> is the graph before its roads are added.
\<close>

definition sixPlaces :: Graph where
  "sixPlaces =
     \<lparr>numVertices = 6, adjacencyList = [[], [], [], [], [], []],
      nodes = [0 \<mapsto> placeAt 0, 1 \<mapsto> placeAt 1, 2 \<mapsto> placeAt 2, 3 \<mapsto> placeAt 3,
               4 \<mapsto> placeAt 4, 5 \<mapsto> placeAt 5]\<rparr>"

definition sideRoads :: Graph where
  "sideRoads =
     \<lparr>numVertices = 6,
      adjacencyList =
        [[],
         [edgeTo 2 (Fin 10000000000000002)], [edgeTo 3 (Fin (3 / 4))], [edgeTo 0 (Fin (3 / 4))],
         [edgeTo 5 (Fin 10000000000000000)], [edgeTo 0 (Fin 3)]],
      nodes = [0 \<mapsto> placeAt 0, 1 \<mapsto> placeAt 1, 2 \<mapsto> placeAt 2, 3 \<mapsto> placeAt 3,
               4 \<mapsto> placeAt 4, 5 \<mapsto> placeAt 5]\<rparr>"

section \<open>Rounding\<close>

lemma expoFrom_bounds: "e \<le> 971 \<Longrightarrow> e \<le> expoFrom e x \<and> expoFrom e x \<le> 971"
proof (induction e x rule: expoFrom.induct)
  case (1 e x)
  show ?case
  proof (cases "e < 971 \<and> 2 powi (e + 53) \<le> \<bar>x\<bar>")
    case True
    then have "expoFrom e x = expoFrom (e + 1) x" by (subst expoFrom.simps) simp
    moreover have "e + 1 \<le> expoFrom (e + 1) x \<and> expoFrom (e + 1) x \<le> 971"
      using 1 True by simp
    ultimately show ?thesis by simp
  next
    case False
    then have "expoFrom e x = e" by (subst expoFrom.simps) auto
    then show ?thesis using 1(2) by simp
  qed
qed

lemma expoFrom_upper: "expoFrom e x < 971 \<Longrightarrow> \<bar>x\<bar> < 2 powi (expoFrom e x + 53)"
proof (induction e x rule: expoFrom.induct)
  case (1 e x)
  show ?case
  proof (cases "e < 971 \<and> 2 powi (e + 53) \<le> \<bar>x\<bar>")
    case True
    then have "expoFrom e x = expoFrom (e + 1) x" by (subst expoFrom.simps) simp
    then show ?thesis using 1 True by simp
  next
    case False
    then have e: "expoFrom e x = e" by (subst expoFrom.simps) auto
    then show ?thesis using 1(2) False by simp
  qed
qed

lemma expoFrom_lower:
  "e \<le> 971 \<Longrightarrow> e < expoFrom e x \<Longrightarrow> 2 powi (expoFrom e x + 52) \<le> \<bar>x\<bar>"
proof (induction e x rule: expoFrom.induct)
  case (1 e x)
  show ?case
  proof (cases "e < 971 \<and> 2 powi (e + 53) \<le> \<bar>x\<bar>")
    case True
    then have eq: "expoFrom e x = expoFrom (e + 1) x" by (subst expoFrom.simps) simp
    show ?thesis
    proof (cases "e + 1 < expoFrom (e + 1) x")
      case True
      then show ?thesis using 1(1) \<open>e < 971 \<and> 2 powi (e + 53) \<le> \<bar>x\<bar>\<close> eq by simp
    next
      case False
      moreover have "e + 1 \<le> expoFrom (e + 1) x"
        using expoFrom_bounds[of "e + 1" x] True by simp
      ultimately have "expoFrom (e + 1) x = e + 1" by simp
      then have "expoFrom e x + 52 = e + 53" using eq by simp
      then show ?thesis using \<open>e < 971 \<and> 2 powi (e + 53) \<le> \<bar>x\<bar>\<close> by (simp add: add.commute)
    qed
  next
    case False
    then have "expoFrom e x = e" by (subst expoFrom.simps) auto
    then show ?thesis using 1(3) by simp
  qed
qed

lemma expo_bounds: "- 1074 \<le> expo x" "expo x \<le> 971"
  using expoFrom_bounds[of "- 1074" x] by (simp_all add: expo_def)

lemma expo_upper: "expo x < 971 \<Longrightarrow> \<bar>x\<bar> < 2 powi (expo x + 53)"
  unfolding expo_def by (rule expoFrom_upper)

lemma expo_lower: "- 1074 < expo x \<Longrightarrow> 2 powi (expo x + 52) \<le> \<bar>x\<bar>"
  unfolding expo_def by (rule expoFrom_lower) simp_all

lemma two_powi_mono: "m \<le> n \<Longrightarrow> (2::real) powi m \<le> 2 powi n"
  by (rule power_int_increasing) simp_all

lemma expo_le:
  assumes "- 1074 \<le> e" and "\<bar>x\<bar> < 2 powi (e + 53)"
  shows "expo x \<le> e"
proof (rule ccontr)
  assume "\<not> expo x \<le> e"
  then have lt: "e < expo x" by simp
  then have "- 1074 < expo x" using assms(1) by simp
  then have "2 powi (expo x + 52) \<le> \<bar>x\<bar>" by (rule expo_lower)
  moreover have "(2::real) powi (e + 53) \<le> 2 powi (expo x + 52)"
    using lt by (intro two_powi_mono) simp
  ultimately show False using assms(2) by simp
qed

lemma expo_ge:
  assumes "e \<le> 971" and "e = - 1074 \<or> 2 powi (e + 52) \<le> \<bar>x\<bar>"
  shows "e \<le> expo x"
proof (rule ccontr)
  assume "\<not> e \<le> expo x"
  then have lt: "expo x < e" by simp
  then have "expo x < 971" using assms(1) by simp
  then have "\<bar>x\<bar> < 2 powi (expo x + 53)" by (rule expo_upper)
  moreover have "(2::real) powi (expo x + 53) \<le> 2 powi (e + 52)"
    using lt by (intro two_powi_mono) simp
  moreover have "e \<noteq> - 1074" using lt expo_bounds(1)[of x] by simp
  ultimately show False using assms(2) by simp
qed

lemma expo_eqI:
  assumes "- 1074 \<le> e" "e \<le> 971" "e = 971 \<or> \<bar>x\<bar> < 2 powi (e + 53)"
    "e = - 1074 \<or> 2 powi (e + 52) \<le> \<bar>x\<bar>"
  shows "expo x = e"
proof -
  have "e \<le> expo x" by (rule expo_ge[OF assms(2,4)])
  moreover have "expo x \<le> e"
  proof (cases "e = 971")
    case True
    then show ?thesis using expo_bounds(2)[of x] by simp
  next
    case False
    then show ?thesis using assms(1,3) by (intro expo_le) simp_all
  qed
  ultimately show ?thesis by simp
qed

lemma expo_mono: "\<bar>x\<bar> \<le> \<bar>y\<bar> \<Longrightarrow> expo x \<le> expo y"
proof (rule ccontr)
  assume xy: "\<bar>x\<bar> \<le> \<bar>y\<bar>" and "\<not> expo x \<le> expo y"
  then have lt: "expo y < expo x" by simp
  then have "- 1074 < expo x" using expo_bounds(1)[of y] by simp
  then have "2 powi (expo x + 52) \<le> \<bar>x\<bar>" by (rule expo_lower)
  moreover have "expo y < 971" using lt expo_bounds(2)[of x] by simp
  then have "\<bar>y\<bar> < 2 powi (expo y + 53)" by (rule expo_upper)
  moreover have "(2::real) powi (expo y + 53) \<le> 2 powi (expo x + 52)"
    using lt by (intro two_powi_mono) simp
  ultimately show False using xy by simp
qed

lemma expo_uminus: "expo (- x) = expo x"
proof -
  have "expoFrom e (- x) = expoFrom e x" for e
  proof (induction e x rule: expoFrom.induct)
    case (1 e x)
    show ?case
      using 1 by (subst expoFrom.simps, subst (2) expoFrom.simps) simp
  qed
  then show ?thesis by (simp add: expo_def)
qed

lemma nearestEven_of_int [simp]: "nearestEven (of_int n) = n"
  by (simp add: nearestEven_def)

lemma nearestEven_bounds: "\<lfloor>q\<rfloor> \<le> nearestEven q \<and> nearestEven q \<le> \<lfloor>q\<rfloor> + 1"
  by (simp add: nearestEven_def Let_def)

lemma nearestEven_mono: "q \<le> q' \<Longrightarrow> nearestEven q \<le> nearestEven q'"
proof -
  assume le: "q \<le> q'"
  have f: "\<lfloor>q\<rfloor> \<le> \<lfloor>q'\<rfloor>" using le by (rule floor_mono)
  show ?thesis
  proof (cases "\<lfloor>q\<rfloor> = \<lfloor>q'\<rfloor>")
    case True
    then have "q - of_int \<lfloor>q'\<rfloor> \<le> q' - of_int \<lfloor>q'\<rfloor>" using le by simp
    then show ?thesis using True by (auto simp: nearestEven_def Let_def)
  next
    case False
    then have "\<lfloor>q\<rfloor> + 1 \<le> \<lfloor>q'\<rfloor>" using f by simp
    then show ?thesis using nearestEven_bounds[of q] nearestEven_bounds[of q'] by linarith
  qed
qed

lemma nearestEven_le: "q \<le> of_int n \<Longrightarrow> nearestEven q \<le> n"
  using nearestEven_mono[of q "of_int n"] by simp

lemma nearestEven_ge: "of_int n \<le> q \<Longrightarrow> n \<le> nearestEven q"
  using nearestEven_mono[of "of_int n" q] by simp

lemma nearestEven_uminus: "nearestEven (- q) = - nearestEven q"
proof (cases "q = of_int \<lfloor>q\<rfloor>")
  case True
  then have "nearestEven q = \<lfloor>q\<rfloor>" by (metis nearestEven_of_int)
  moreover have "- q = of_int (- \<lfloor>q\<rfloor>)" using True by simp
  then have "nearestEven (- q) = - \<lfloor>q\<rfloor>" by (metis nearestEven_of_int)
  ultimately show ?thesis by simp
next
  case False
  then have lt: "of_int \<lfloor>q\<rfloor> < q" using of_int_floor_le[of q] by linarith
  have up: "q < of_int \<lfloor>q\<rfloor> + 1" by linarith
  have fl: "\<lfloor>- q\<rfloor> = - \<lfloor>q\<rfloor> - 1"
  proof (rule floor_unique)
    show "of_int (- \<lfloor>q\<rfloor> - 1) \<le> - q" by (simp, linarith)
    show "- q < of_int (- \<lfloor>q\<rfloor> - 1) + 1" using lt by simp
  qed
  show ?thesis
    unfolding nearestEven_def Let_def fl using lt by (auto simp: algebra_simps)
qed

lemma two_powi_pos [simp]: "0 < (2::real) powi e"
  by (simp add: zero_less_power_int)

lemma rnd_zero [simp]: "rnd 0 = 0"
  using nearestEven_of_int[of 0] by (simp add: rnd_def del: nearestEven_of_int)

lemma rnd_uminus: "rnd (- x) = - rnd x"
  by (simp add: rnd_def expo_uminus nearestEven_uminus)

lemma rnd_nonneg: "0 \<le> x \<Longrightarrow> 0 \<le> rnd x"
proof -
  assume "0 \<le> x"
  then have "of_int 0 \<le> x / 2 powi expo x" by simp
  then have "0 \<le> nearestEven (x / 2 powi expo x)" by (rule nearestEven_ge)
  then show ?thesis by (simp add: rnd_def)
qed

lemma rnd_mono_nonneg:
  assumes x: "0 \<le> x" and xy: "x \<le> y"
  shows "rnd x \<le> rnd y"
proof -
  have e: "expo x \<le> expo y" using x xy by (intro expo_mono) simp
  show ?thesis
  proof (cases "expo x = expo y")
    case True
    have "x / 2 powi expo y \<le> y / 2 powi expo y" using xy by (simp add: divide_right_mono)
    then have "nearestEven (x / 2 powi expo y) \<le> nearestEven (y / 2 powi expo y)"
      by (rule nearestEven_mono)
    then show ?thesis unfolding rnd_def True by (simp add: mult_right_mono)
  next
    case False
    then have lt: "expo x < expo y" using e by simp
    have "expo x < 971" using lt expo_bounds(2)[of y] by simp
    then have "\<bar>x\<bar> < 2 powi (expo x + 53)" by (rule expo_upper)
    then have "x \<le> 2 powi 53 * 2 powi expo x" using x by (simp add: power_int_add mult.commute)
    then have "x / 2 powi expo x \<le> of_int (2 ^ 53)"
      by (simp add: pos_divide_le_eq)
    then have "nearestEven (x / 2 powi expo x) \<le> 2 ^ 53" by (rule nearestEven_le)
    then have "real_of_int (nearestEven (x / 2 powi expo x)) \<le> 2 ^ 53"
      by (metis of_int_le_iff of_int_numeral of_int_power)
    then have "rnd x \<le> 2 ^ 53 * 2 powi expo x"
      unfolding rnd_def by (intro mult_right_mono) simp_all
    also have "\<dots> = 2 powi (expo x + 53)" by (simp add: power_int_add mult.commute)
    also have "\<dots> \<le> 2 powi (expo y + 52)" using lt by (intro two_powi_mono) simp
    finally have up: "rnd x \<le> 2 powi (expo y + 52)" .
    have "- 1074 < expo y" using lt expo_bounds(1)[of x] by simp
    then have "2 powi (expo y + 52) \<le> \<bar>y\<bar>" by (rule expo_lower)
    then have "2 powi 52 * 2 powi expo y \<le> y" using x xy by (simp add: power_int_add mult.commute)
    then have "of_int (2 ^ 52) \<le> y / 2 powi expo y"
      by (simp add: pos_le_divide_eq)
    then have "2 ^ 52 \<le> nearestEven (y / 2 powi expo y)" by (rule nearestEven_ge)
    then have "2 ^ 52 \<le> real_of_int (nearestEven (y / 2 powi expo y))"
      by (metis of_int_le_iff of_int_numeral of_int_power)
    then have "2 ^ 52 * 2 powi expo y \<le> rnd y"
      unfolding rnd_def by (intro mult_right_mono) simp_all
    moreover have "2 ^ 52 * 2 powi expo y = (2::real) powi (expo y + 52)"
      by (simp add: power_int_add mult.commute)
    ultimately show ?thesis using up by simp
  qed
qed

lemma rnd_mono: "x \<le> y \<Longrightarrow> rnd x \<le> rnd y"
proof -
  assume xy: "x \<le> y"
  consider "0 \<le> x" | "x < 0" "0 \<le> y" | "y < 0" using xy by linarith
  then show ?thesis
  proof cases
    case 1
    then show ?thesis using xy by (rule rnd_mono_nonneg)
  next
    case 2
    have "0 \<le> rnd (- x)" using 2(1) by (intro rnd_nonneg) simp
    then have "rnd x \<le> 0" by (simp add: rnd_uminus)
    then show ?thesis using rnd_nonneg[OF 2(2)] by simp
  next
    case 3
    have "rnd (- y) \<le> rnd (- x)" using 3 xy by (intro rnd_mono_nonneg) simp_all
    then show ?thesis by (simp add: rnd_uminus)
  qed
qed

text \<open>A multiple of a power of two with at most 53 binary digits is rounded to itself.\<close>

lemma rnd_exact:
  assumes e: "- 1074 \<le> e" and m: "971 \<le> e \<or> \<bar>of_int m * 2 powi e\<bar> < (2::real) powi (e + 53)"
  shows "rnd (of_int m * 2 powi e) = of_int m * 2 powi e"
proof -
  let ?x = "of_int m * (2::real) powi e"
  have le: "expo ?x \<le> e"
  proof (cases "971 \<le> e")
    case True
    then show ?thesis using expo_bounds(2)[of ?x] by simp
  next
    case False
    then show ?thesis using m e by (intro expo_le) simp_all
  qed
  define d where "d = expo ?x"
  define k where "k = nat (e - d)"
  have k: "e = d + int k" using le by (simp add: k_def d_def)
  have p: "(2::real) powi e = 2 powi d * 2 ^ k"
    by (subst k) (simp add: power_int_add)
  have "of_int m * (2::real) powi e / 2 powi d = of_int (m * 2 ^ k)"
    unfolding p by simp
  then have "nearestEven (of_int m * (2::real) powi e / 2 powi d) = m * 2 ^ k"
    by (metis nearestEven_of_int)
  then have "rnd ?x = of_int (m * 2 ^ k) * 2 powi d" by (simp add: rnd_def d_def)
  also have "\<dots> = of_int m * (2 powi d * 2 ^ k)" by simp
  also have "\<dots> = ?x" unfolding p by simp
  finally show ?thesis .
qed

lemma rnd_idem: "rnd (rnd x) = rnd x"
proof -
  have nn: "rnd (rnd x) = rnd x" if x: "0 \<le> x" for x
  proof -
    define e where "e = expo x"
    define m where "m = nearestEven (x / 2 powi e)"
    have r: "rnd x = of_int m * 2 powi e" by (simp add: rnd_def m_def e_def)
    have eb: "- 1074 \<le> e" "e \<le> 971" using expo_bounds[of x] by (simp_all add: e_def)
    have "of_int 0 \<le> x / 2 powi e" using x by simp
    then have m0: "0 \<le> m" unfolding m_def by (rule nearestEven_ge)
    show ?thesis
    proof (cases "e = 971")
      case True
      then show ?thesis unfolding r using eb by (intro rnd_exact) simp_all
    next
      case False
      then have "expo x < 971" using eb by (simp add: e_def)
      then have "\<bar>x\<bar> < 2 powi (expo x + 53)" by (rule expo_upper)
      then have "x \<le> 2 powi 53 * 2 powi e" using x by (simp add: power_int_add mult.commute e_def)
      then have "x / 2 powi e \<le> of_int (2 ^ 53)" by (simp add: pos_divide_le_eq)
      then have mle: "m \<le> 2 ^ 53" unfolding m_def by (rule nearestEven_le)
      show ?thesis
      proof (cases "m = 2 ^ 53")
        case True
        have "rnd x = of_int (2 ^ 52) * 2 powi (e + 1)"
          unfolding r True by (simp add: power_int_add)
        moreover have "rnd (of_int (2 ^ 52) * 2 powi (e + 1)) = of_int (2 ^ 52) * 2 powi (e + 1)"
        proof (rule rnd_exact)
          show "- 1074 \<le> e + 1" using eb by simp
          have "(2::real) powi (e + 1 + 53) = 2 ^ 53 * 2 powi (e + 1)"
            by (simp add: power_int_add mult.commute)
          then show "971 \<le> e + 1 \<or> \<bar>of_int (2 ^ 52) * 2 powi (e + 1)\<bar> < (2::real) powi (e + 1 + 53)"
            by simp
        qed
        ultimately show ?thesis by simp
      next
        case False
        then have "m < 2 ^ 53" using mle by simp
        then have "real_of_int m < 2 ^ 53"
          by (metis of_int_less_iff of_int_numeral of_int_power)
        then have "real_of_int m * 2 powi e < 2 ^ 53 * 2 powi e"
          by (intro mult_strict_right_mono) simp_all
        moreover have "(2::real) powi (e + 53) = 2 ^ 53 * 2 powi e"
          by (simp add: power_int_add mult.commute)
        ultimately have "\<bar>of_int m * 2 powi e\<bar> < (2::real) powi (e + 53)"
          using m0 by (simp add: abs_mult)
        then show ?thesis unfolding r using eb by (intro rnd_exact) simp_all
      qed
    qed
  qed
  show ?thesis
  proof (cases "0 \<le> x")
    case True
    then show ?thesis by (rule nn)
  next
    case False
    then have "rnd (rnd (- x)) = rnd (- x)" by (intro nn) simp
    then show ?thesis by (simp add: rnd_uminus)
  qed
qed

section \<open>The arithmetic of doubles\<close>

lemma double_less_PosInf [simp]: "(x < PosInf) = (x \<noteq> PosInf)"
  by (cases x) auto

lemma double_not_less_PosInf [simp]: "\<not> PosInf < (x::double)"
  by (cases x) auto

lemma double_le_PosInf [simp]: "(x::double) \<le> PosInf"
  by (cases x) auto

lemma double_PosInf_le [simp]: "(PosInf \<le> x) = (x = PosInf)"
  by (cases x) auto

lemma double_add_PosInf [simp]: "x + PosInf = PosInf" "PosInf + x = PosInf"
  by (cases x; simp)+

lemma double_zero_ne [simp]: "(0::double) \<noteq> PosInf" "PosInf \<noteq> (0::double)"
  by (auto simp: zero_double_def)

lemma toDouble_mono: "x \<le> y \<Longrightarrow> toDouble x \<le> toDouble y"
  using rnd_mono[of x y] by (auto simp: toDouble_def)

lemma toDouble_nonneg: "0 \<le> x \<Longrightarrow> Fin 0 \<le> toDouble x"
  using rnd_nonneg[of x] by (auto simp: toDouble_def)

lemma isDouble_toDouble: "0 \<le> x \<Longrightarrow> isDouble (toDouble x)"
  using rnd_nonneg[of x] by (auto simp: toDouble_def representable_def rnd_idem)

lemma toDouble_representable: "representable x \<Longrightarrow> toDouble x = Fin x"
  by (auto simp: toDouble_def representable_def)

lemma representable_exact:
  assumes "- 1074 \<le> e" "e \<le> 971" "\<bar>m\<bar> < 2 ^ 53"
  shows "representable (of_int m * 2 powi e)"
proof -
  have m: "\<bar>real_of_int m\<bar> < 2 ^ 53"
    using assms(3) by (metis of_int_abs of_int_less_iff of_int_numeral of_int_power)
  have p: "(2::real) powi (e + 53) = 2 ^ 53 * 2 powi e"
    by (simp add: power_int_add mult.commute)
  have "\<bar>real_of_int m\<bar> * 2 powi e < 2 ^ 53 * 2 powi e"
    using m by (intro mult_strict_right_mono) simp_all
  then have lt: "\<bar>of_int m * 2 powi e\<bar> < (2::real) powi (e + 53)"
    unfolding p by (simp add: abs_mult)
  have "(2::real) powi (e + 53) \<le> 2 powi 1024" using assms(2) by (intro two_powi_mono) simp
  then have "\<bar>of_int m * 2 powi e\<bar> < (2::real) ^ 1024" using lt by simp
  moreover have "rnd (of_int m * 2 powi e) = of_int m * 2 powi e"
    using assms(1) lt by (intro rnd_exact) simp_all
  ultimately show ?thesis by (simp add: representable_def)
qed

lemma representable_int: "\<bar>m\<bar> < 2 ^ 53 \<Longrightarrow> representable (of_int m)"
  using representable_exact[of 0 m] by simp

lemma representable_zero [simp]: "representable 0"
  using representable_int[of 0] by simp

lemma representable_one [simp]: "representable 1"
  using representable_int[of 1] by simp

lemma representable_numeral [simp]:
  "numeral n < (9007199254740992::int) \<Longrightarrow> representable (numeral n)"
  using representable_int[of "numeral n"] by simp

lemma toDouble_zero [simp]: "toDouble 0 = Fin 0"
  by (simp add: toDouble_representable)

lemma toDouble_one [simp]: "toDouble 1 = Fin 1"
  by (simp add: toDouble_representable)

lemma toDouble_numeral [simp]:
  "numeral n < (9007199254740992::int) \<Longrightarrow> toDouble (numeral n) = Fin (numeral n)"
  by (simp add: toDouble_representable)

text \<open>
  What the search needs of the sum: it keeps the order, it does not fall below an operand
  that is a \<open>double\<close> when the other is not negative, and the sum of operands that are not
  negative is a \<open>double\<close> that is not negative.
\<close>

lemma double_add_right_mono: "(a::double) \<le> b \<Longrightarrow> a + w \<le> b + w"
  by (cases a; cases b; cases w) (auto simp: toDouble_mono)

lemma double_add_nonneg: "(0::double) \<le> x \<Longrightarrow> 0 \<le> y \<Longrightarrow> 0 \<le> x + y"
  by (cases x; cases y) (auto simp: zero_double_def toDouble_nonneg)

lemma isDouble_add: "(0::double) \<le> x \<Longrightarrow> 0 \<le> y \<Longrightarrow> isDouble (x + y)"
  by (cases x; cases y) (auto simp: zero_double_def isDouble_toDouble)

lemma double_le_add:
  assumes "isDouble x" and "(0::double) \<le> w"
  shows "x \<le> x + w"
proof (cases x)
  case (Fin a)
  show ?thesis
  proof (cases w)
    case w: (Fin b)
    have b: "0 \<le> b" using assms(2) w by (simp add: zero_double_def)
    have "toDouble a \<le> toDouble (a + b)" using b by (intro toDouble_mono) simp
    moreover have "toDouble a = Fin a" using assms(1) Fin by (simp add: toDouble_representable)
    ultimately show ?thesis using Fin w by simp
  next
    case PosInf
    then show ?thesis by simp
  qed
next
  case PosInf
  then show ?thesis by simp
qed

lemma double_add_zero: "isDouble x \<Longrightarrow> x + 0 = x"
  by (cases x) (auto simp: zero_double_def toDouble_representable)

text \<open>Rounding at a known exponent.\<close>

lemma toDouble_at:
  assumes e: "- 1074 \<le> e" "e \<le> 970"
    and x: "2 powi (e + 52) \<le> \<bar>x\<bar>" "\<bar>x\<bar> < 2 powi (e + 53)"
  shows "toDouble x = Fin (of_int (nearestEven (x / 2 powi e)) * 2 powi e)"
proof -
  have ex: "expo x = e" using e x by (intro expo_eqI) simp_all
  have r: "rnd x = of_int (nearestEven (x / 2 powi e)) * 2 powi e"
    by (simp add: rnd_def ex)
  have "x / 2 powi e \<le> \<bar>x\<bar> / 2 powi e" by (simp add: divide_right_mono)
  also have "\<dots> \<le> 2 powi (e + 53) / 2 powi e"
    using x(2) by (simp add: divide_right_mono)
  also have "\<dots> = of_int (2 ^ 53)" by (simp add: power_int_add)
  finally have "nearestEven (x / 2 powi e) \<le> 2 ^ 53" by (rule nearestEven_le)
  then have "real_of_int (nearestEven (x / 2 powi e)) \<le> 2 ^ 53"
    by (metis of_int_le_iff of_int_numeral of_int_power)
  then have "rnd x \<le> 2 ^ 53 * 2 powi e" unfolding r by (simp add: mult_right_mono)
  also have "\<dots> = 2 powi (e + 53)" by (simp add: power_int_add)
  also have "\<dots> \<le> 2 powi 1023" using e by (intro two_powi_mono) simp
  also have "\<dots> < 2 ^ 1024" by simp
  finally show ?thesis by (simp add: toDouble_def r)
qed

section \<open>The heap keeps its index and its order\<close>

lemma parent_less: "0 < i \<Longrightarrow> parent i < i"
  by (simp add: parent_def)

lemma parent_children: "0 < j \<Longrightarrow> parent j = i \<longleftrightarrow> (j = leftChild i \<or> j = rightChild i)"
  by (auto simp: parent_def leftChild_def rightChild_def)

lemma heap_swap: "heap (swap h i j) = (heap h)[i := heap h ! j, j := heap h ! i]"
  by (simp add: swap_def Let_def)

lemma positions_swap:
  "positions (swap h i j) = (positions h)(vertex (heap h ! i) \<mapsto> j, vertex (heap h ! j) \<mapsto> i)"
  by (simp add: swap_def Let_def)

lemma idx_ok_inj:
  "idx_ok h \<Longrightarrow> i < length (heap h) \<Longrightarrow> j < length (heap h) \<Longrightarrow>
   vertex (heap h ! i) = vertex (heap h ! j) \<Longrightarrow> i = j"
  unfolding idx_ok_def by (metis option.inject)

lemma idx_ok_swap:
  assumes "idx_ok h" "i < length (heap h)" "j < length (heap h)"
  shows "idx_ok (swap h i j)"
proof (cases "i = j")
  case True
  have "positions h (vertex (heap h ! i)) = Some i"
    using assms unfolding idx_ok_def by blast
  then have "(positions h)(vertex (heap h ! i) \<mapsto> i) = positions h"
    by (simp add: map_upd_triv)
  with True assms show ?thesis
    by (simp add: idx_ok_def heap_swap positions_swap)
next
  case False
  have inj: "\<And>a b. a < length (heap h) \<Longrightarrow> b < length (heap h) \<Longrightarrow>
     vertex (heap h ! a) = vertex (heap h ! b) \<Longrightarrow> a = b"
    using idx_ok_inj[OF assms(1)] by blast
  have p: "\<And>k. k < length (heap h) \<Longrightarrow> positions h (vertex (heap h ! k)) = Some k"
    using assms(1) unfolding idx_ok_def by blast
  have q: "\<And>v k. positions h v = Some k \<Longrightarrow> k < length (heap h) \<and> vertex (heap h ! k) = v"
    using assms(1) unfolding idx_ok_def by blast
  show ?thesis
    unfolding idx_ok_def heap_swap positions_swap
  proof (intro conjI allI impI)
    fix k assume "k < length ((heap h)[i := heap h ! j, j := heap h ! i])"
    then have k: "k < length (heap h)" by simp
    show "((positions h)(vertex (heap h ! i) \<mapsto> j, vertex (heap h ! j) \<mapsto> i))
            (vertex ((heap h)[i := heap h ! j, j := heap h ! i] ! k)) = Some k"
      using k assms(2,3) False inj[of i j] inj[of k i] inj[of k j] p[of k]
      by (auto simp: nth_list_update)
  next
    fix v k
    assume a: "((positions h)(vertex (heap h ! i) \<mapsto> j, vertex (heap h ! j) \<mapsto> i)) v = Some k"
    show "k < length ((heap h)[i := heap h ! j, j := heap h ! i])"
      using a assms(2,3) q[of v k] by (auto split: if_splits)
    show "vertex ((heap h)[i := heap h ! j, j := heap h ! i] ! k) = v"
      using a assms(2,3) False q[of v k] inj[of i j]
      by (auto simp: nth_list_update split: if_splits)
  qed
qed

lemma mset_heap_swap:
  "i < length (heap h) \<Longrightarrow> j < length (heap h) \<Longrightarrow> mset (heap (swap h i j)) = mset (heap h)"
  by (simp add: heap_swap mset_swap)

lemma heapifyUp_struct:
  "i < length (heap h) \<Longrightarrow>
   length (heap (heapifyUp h i)) = length (heap h) \<and>
   mset (heap (heapifyUp h i)) = mset (heap h) \<and>
   (idx_ok h \<longrightarrow> idx_ok (heapifyUp h i))"
proof (induction h i rule: heapifyUp.induct)
  case (1 h i)
  show ?case
  proof (cases "i > 0 \<and> distance (heap h ! parent i) > distance (heap h ! i)")
    case True
    then have pl: "parent i < length (heap h)"
      using parent_less[of i] "1.prems" by simp
    have ih: "length (heap (heapifyUp (swap h i (parent i)) (parent i))) = length (heap (swap h i (parent i))) \<and>
      mset (heap (heapifyUp (swap h i (parent i)) (parent i))) = mset (heap (swap h i (parent i))) \<and>
      (idx_ok (swap h i (parent i)) \<longrightarrow> idx_ok (heapifyUp (swap h i (parent i)) (parent i)))"
      using "1.IH"[OF True] pl by (simp add: length_heap_swap)
    have eq: "heapifyUp h i = heapifyUp (swap h i (parent i)) (parent i)"
      using True by (subst heapifyUp.simps) simp
    show ?thesis
      unfolding eq using ih pl "1.prems"
      by (auto simp: length_heap_swap mset_heap_swap idx_ok_swap)
  next
    case False
    then have "heapifyUp h i = h" by (subst heapifyUp.simps) auto
    then show ?thesis by simp
  qed
qed

lemma up_inv_step:
  assumes "up_inv hp i" "i < length hp" "0 < i"
    and "distance (hp ! parent i) > distance (hp ! i)"
  shows "up_inv (hp[i := hp ! parent i, parent i := hp ! i]) (parent i)"
proof -
  let ?p = "parent i"
  let ?hp = "hp[i := hp ! ?p, ?p := hp ! i]"
  have pi: "?p < i" using assms(3) by (rule parent_less)
  have A: "\<And>j. 0 < j \<Longrightarrow> j < length hp \<Longrightarrow> j \<noteq> i \<Longrightarrow> distance (hp ! parent j) \<le> distance (hp ! j)"
    using assms(1) unfolding up_inv_def by blast
  have B: "\<And>j. 0 < j \<Longrightarrow> j < length hp \<Longrightarrow> parent j = i \<Longrightarrow> distance (hp ! ?p) \<le> distance (hp ! j)"
    using assms(1,3) unfolding up_inv_def by blast
  have nth: "\<And>k. k < length hp \<Longrightarrow> ?hp ! k = (if k = ?p then hp ! i else if k = i then hp ! ?p else hp ! k)"
    using pi assms(2) by (auto simp: nth_list_update)
  show ?thesis
    unfolding up_inv_def
  proof (intro conjI allI impI)
    fix j assume "0 < j \<and> j < length ?hp \<and> j \<noteq> ?p"
    then have j: "0 < j" "j < length hp" "j \<noteq> ?p" by auto
    have pj: "parent j < j" using j(1) by (rule parent_less)
    then have pjl: "parent j < length hp" using j(2) by simp
    show "distance (?hp ! parent j) \<le> distance (?hp ! j)"
    proof (cases "j = i")
      case True
      then show ?thesis using nth[of i] nth[of ?p] assms(2,4) pi by auto
    next
      case False
      then have hj: "?hp ! j = hp ! j" using nth[OF j(2)] j(3) by simp
      show ?thesis
      proof (cases "parent j = i")
        case True
        then show ?thesis using hj nth[of i] assms(2) pi B[OF j(1,2) True] by auto
      next
        case F2: False
        show ?thesis
        proof (cases "parent j = ?p")
          case True
          then show ?thesis using hj nth[of ?p] pi assms(2,4) A[OF j(1,2) False] by auto
        next
          case F3: False
          then show ?thesis using hj nth[OF pjl] F2 A[OF j(1,2) False] by auto
        qed
      qed
    qed
  next
    fix j assume "0 < j \<and> j < length ?hp \<and> parent j = ?p \<and> 0 < ?p"
    then have j: "0 < j" "j < length hp" "parent j = ?p" "0 < ?p" by auto
    have ppl: "parent ?p < ?p" using j(4) by (rule parent_less)
    have pp: "?hp ! parent ?p = hp ! parent ?p"
      using nth[of "parent ?p"] ppl pi assms(2) by auto
    have pA: "distance (hp ! parent ?p) \<le> distance (hp ! ?p)"
      using A[of ?p] j(4) pi assms(2) by auto
    have jp: "j \<noteq> ?p" using j(3) parent_less[OF j(1)] by auto
    show "distance (?hp ! parent ?p) \<le> distance (?hp ! j)"
    proof (cases "j = i")
      case True
      then show ?thesis using pp pA nth[of i] assms(2) pi by auto
    next
      case False
      then have "?hp ! j = hp ! j" using nth[OF j(2)] jp by simp
      moreover have "distance (hp ! ?p) \<le> distance (hp ! j)"
        using A[OF j(1,2) False] j(3) by simp
      ultimately show ?thesis using pp pA by auto
    qed
  qed
qed

lemma heapifyUp_order:
  "i < length (heap h) \<Longrightarrow> up_inv (heap h) i \<Longrightarrow> heap_order (heap (heapifyUp h i))"
proof (induction h i rule: heapifyUp.induct)
  case (1 h i)
  show ?case
  proof (cases "i > 0 \<and> distance (heap h ! parent i) > distance (heap h ! i)")
    case True
    then have pl: "parent i < length (heap h)"
      using parent_less[of i] "1.prems" by simp
    have eq: "heapifyUp h i = heapifyUp (swap h i (parent i)) (parent i)"
      using True by (subst heapifyUp.simps) simp
    have "up_inv (heap (swap h i (parent i))) (parent i)"
      unfolding heap_swap using up_inv_step[OF "1.prems"(2,1)] True by simp
    then show ?thesis
      unfolding eq using "1.IH"[OF True] pl by (simp add: length_heap_swap)
  next
    case False
    then have eq: "heapifyUp h i = h" by (subst heapifyUp.simps) auto
    show ?thesis
      unfolding eq heap_order_def
    proof (intro allI impI)
      fix j assume j: "0 < j \<and> j < length (heap h)"
      show "distance (heap h ! parent j) \<le> distance (heap h ! j)"
      proof (cases "j = i")
        case True
        then show ?thesis using False j by auto
      next
        case F: False
        then show ?thesis using "1.prems"(2) j unfolding up_inv_def by blast
      qed
    qed
  qed
qed

lemma heapifyDown_unfold:
  "heapifyDown h i =
     (if minIndexOf (heap h) i \<noteq> i
      then heapifyDown (swap h i (minIndexOf (heap h) i)) (minIndexOf (heap h) i) else h)"
  by (subst heapifyDown.simps) (simp add: minIndexOf_def Let_def)

lemma minIndexOf_cases:
  "minIndexOf hp i = i \<or>
   (minIndexOf hp i < length hp \<and> parent (minIndexOf hp i) = i \<and> i < minIndexOf hp i \<and>
    distance (hp ! minIndexOf hp i) < distance (hp ! i))"
  by (auto simp: minIndexOf_def Let_def parent_def leftChild_def rightChild_def)

lemma minIndexOf_le_children:
  "0 < j \<Longrightarrow> j < length hp \<Longrightarrow> parent j = i \<Longrightarrow>
   distance (hp ! minIndexOf hp i) \<le> distance (hp ! j)"
  by (auto simp: minIndexOf_def Let_def parent_children)

lemma heapifyDown_struct:
  "i < length (heap h) \<Longrightarrow>
   length (heap (heapifyDown h i)) = length (heap h) \<and>
   mset (heap (heapifyDown h i)) = mset (heap h) \<and>
   (idx_ok h \<longrightarrow> idx_ok (heapifyDown h i))"
proof (induction "length (heap h) - i" arbitrary: h i rule: less_induct)
  case less
  let ?m = "minIndexOf (heap h) i"
  show ?case
  proof (cases "?m = i")
    case True
    then have "heapifyDown h i = h" by (subst heapifyDown_unfold) simp
    then show ?thesis by simp
  next
    case False
    then have m: "?m < length (heap h)" "i < ?m"
      using minIndexOf_cases[of "heap h" i] by auto
    have eq: "heapifyDown h i = heapifyDown (swap h i ?m) ?m"
      using False by (subst heapifyDown_unfold) simp
    have "length (heap (swap h i ?m)) - ?m < length (heap h) - i"
      using m by (simp add: length_heap_swap)
    from less.hyps[OF this] m
    have ih: "length (heap (heapifyDown (swap h i ?m) ?m)) = length (heap (swap h i ?m)) \<and>
      mset (heap (heapifyDown (swap h i ?m) ?m)) = mset (heap (swap h i ?m)) \<and>
      (idx_ok (swap h i ?m) \<longrightarrow> idx_ok (heapifyDown (swap h i ?m) ?m))"
      by (simp add: length_heap_swap)
    show ?thesis
      unfolding eq using ih m less.prems
      by (auto simp: length_heap_swap mset_heap_swap idx_ok_swap)
  qed
qed

lemma down_inv_step:
  assumes "down_inv hp i" "i < length hp" and ne: "minIndexOf hp i \<noteq> i"
  shows "down_inv (hp[i := hp ! minIndexOf hp i, minIndexOf hp i := hp ! i]) (minIndexOf hp i)"
proof -
  let ?m = "minIndexOf hp i"
  let ?hp = "hp[i := hp ! ?m, ?m := hp ! i]"
  have m: "?m < length hp" "parent ?m = i" "i < ?m" "distance (hp ! ?m) < distance (hp ! i)"
    using minIndexOf_cases[of hp i] ne by auto
  have A: "\<And>j. 0 < j \<Longrightarrow> j < length hp \<Longrightarrow> parent j \<noteq> i \<Longrightarrow>
             distance (hp ! parent j) \<le> distance (hp ! j)"
    using assms(1) unfolding down_inv_def by blast
  have B: "\<And>j. 0 < j \<Longrightarrow> j < length hp \<Longrightarrow> parent j = i \<Longrightarrow> 0 < i \<Longrightarrow>
             distance (hp ! parent i) \<le> distance (hp ! j)"
    using assms(1) unfolding down_inv_def by blast
  have nth: "\<And>k. k < length hp \<Longrightarrow>
      ?hp ! k = (if k = ?m then hp ! i else if k = i then hp ! ?m else hp ! k)"
    using m assms(2) by (auto simp: nth_list_update)
  show ?thesis
    unfolding down_inv_def
  proof (intro conjI allI impI)
    fix j assume "0 < j \<and> j < length ?hp \<and> parent j \<noteq> ?m"
    then have j: "0 < j" "j < length hp" "parent j \<noteq> ?m" by auto
    have pj: "parent j < j" using j(1) by (rule parent_less)
    then have pjl: "parent j < length hp" using j(2) by simp
    show "distance (?hp ! parent j) \<le> distance (?hp ! j)"
    proof (cases "parent j = i")
      case True
      have le: "distance (hp ! ?m) \<le> distance (hp ! j)"
        using minIndexOf_le_children[OF j(1,2) True] .
      have ji: "j \<noteq> i" using True pj by auto
      have hi: "?hp ! parent j = hp ! ?m"
        using nth[OF assms(2)] m(3) True by simp
      show ?thesis
      proof (cases "j = ?m")
        case J: True
        have "?hp ! j = hp ! i" using nth[OF j(2)] J by simp
        then show ?thesis using hi m(4) by simp
      next
        case J: False
        have "?hp ! j = hp ! j" using nth[OF j(2)] J ji by simp
        then show ?thesis using hi le by simp
      qed
    next
      case False
      show ?thesis
      proof (cases "j = i")
        case True
        then have "0 < i" using j(1) by simp
        from B[OF _ m(1,2) this] m(3)
        have "distance (hp ! parent i) \<le> distance (hp ! ?m)" by simp
        moreover have "?hp ! parent i = hp ! parent i"
          using nth[OF pjl] True False j(3) by auto
        ultimately show ?thesis using True nth[OF assms(2)] m by auto
      next
        case F2: False
        have "j \<noteq> ?m" using False m(2) by auto
        then have "?hp ! j = hp ! j" using nth[OF j(2)] F2 by simp
        moreover have "?hp ! parent j = hp ! parent j"
          using nth[OF pjl] False j(3) by auto
        ultimately show ?thesis using A[OF j(1,2) False] by simp
      qed
    qed
  next
    fix j assume "0 < j \<and> j < length ?hp \<and> parent j = ?m \<and> 0 < ?m"
    then have j: "0 < j" "j < length hp" "parent j = ?m" by auto
    have pj: "parent j < j" using j(1) by (rule parent_less)
    have "j \<noteq> i" "j \<noteq> ?m" using j(3) pj m(3) by auto
    then have "?hp ! j = hp ! j" using nth[OF j(2)] by simp
    moreover have "?hp ! parent ?m = hp ! ?m"
      using m(2) nth[OF assms(2)] m(3) by auto
    moreover have "distance (hp ! ?m) \<le> distance (hp ! j)"
      using A[OF j(1,2)] j(3) ne by auto
    ultimately show "distance (?hp ! parent ?m) \<le> distance (?hp ! j)" by simp
  qed
qed

lemma heapifyDown_order:
  "i < length (heap h) \<Longrightarrow> down_inv (heap h) i \<Longrightarrow> heap_order (heap (heapifyDown h i))"
proof (induction "length (heap h) - i" arbitrary: h i rule: less_induct)
  case less
  let ?m = "minIndexOf (heap h) i"
  show ?case
  proof (cases "?m = i")
    case True
    then have eq: "heapifyDown h i = h" by (subst heapifyDown_unfold) simp
    show ?thesis
      unfolding eq heap_order_def
    proof (intro allI impI)
      fix j assume j: "0 < j \<and> j < length (heap h)"
      show "distance (heap h ! parent j) \<le> distance (heap h ! j)"
      proof (cases "parent j = i")
        case P: True
        show ?thesis using minIndexOf_le_children[of j "heap h" i] j P True by simp
      next
        case False
        then show ?thesis using less.prems(2) j unfolding down_inv_def by blast
      qed
    qed
  next
    case False
    then have m: "?m < length (heap h)" "i < ?m"
      using minIndexOf_cases[of "heap h" i] by auto
    have eq: "heapifyDown h i = heapifyDown (swap h i ?m) ?m"
      using False by (subst heapifyDown_unfold) simp
    have lt: "length (heap (swap h i ?m)) - ?m < length (heap h) - i"
      using m by (simp add: length_heap_swap)
    have "down_inv (heap (swap h i ?m)) ?m"
      unfolding heap_swap using down_inv_step[OF less.prems(2,1) False] .
    then show ?thesis
      unfolding eq using less.hyps[OF lt] m by (simp add: length_heap_swap)
  qed
qed

lemma heap_order_root_min:
  "heap_order hp \<Longrightarrow> i < length hp \<Longrightarrow> distance (hp ! 0) \<le> distance (hp ! i)"
proof (induction i rule: less_induct)
  case (less i)
  show ?case
  proof (cases "i = 0")
    case True
    then show ?thesis by simp
  next
    case False
    then have p: "parent i < i" by (simp add: parent_less)
    have "distance (hp ! parent i) \<le> distance (hp ! i)"
      using less.prems False unfolding heap_order_def by simp
    moreover have "distance (hp ! 0) \<le> distance (hp ! parent i)"
      using less.IH[OF p less.prems(1)] p less.prems(2) by simp
    ultimately show ?thesis by simp
  qed
qed

lemma heap_inv_empty: "heap_inv emptyHeap"
  by (simp add: heap_inv_def idx_ok_def heap_order_def emptyHeap_def)

lemma idx_ok_contains:
  "idx_ok h \<Longrightarrow> (positions h v \<noteq> None) = (v \<in> vertex ` set (heap h))"
  unfolding idx_ok_def by (force simp: in_set_conv_nth)

lemma idx_ok_distinct: "idx_ok h \<Longrightarrow> distinct (map vertex (heap h))"
  by (auto simp: distinct_conv_nth dest: idx_ok_inj)

lemma idx_ok_push:
  assumes "idx_ok h" "positions h v = None"
  shows "idx_ok (h\<lparr>heap := heap h @ [\<lparr>vertex = v, distance = d\<rparr>],
                  positions := (positions h)(v \<mapsto> length (heap h))\<rparr>)"
proof -
  have p: "\<And>k. k < length (heap h) \<Longrightarrow> positions h (vertex (heap h ! k)) = Some k"
    using assms(1) unfolding idx_ok_def by blast
  have q: "\<And>w k. positions h w = Some k \<Longrightarrow> k < length (heap h) \<and> vertex (heap h ! k) = w"
    using assms(1) unfolding idx_ok_def by blast
  have nv: "\<And>k. k < length (heap h) \<Longrightarrow> vertex (heap h ! k) \<noteq> v"
    using p assms(2) by fastforce
  show ?thesis
    unfolding idx_ok_def
  proof (intro conjI allI impI)
    fix i assume "i < length (heap (h\<lparr>heap := heap h @ [\<lparr>vertex = v, distance = d\<rparr>],
                  positions := (positions h)(v \<mapsto> length (heap h))\<rparr>))"
    then have "i < length (heap h) \<or> i = length (heap h)" by auto
    then show "positions (h\<lparr>heap := heap h @ [\<lparr>vertex = v, distance = d\<rparr>],
                  positions := (positions h)(v \<mapsto> length (heap h))\<rparr>)
       (vertex (heap (h\<lparr>heap := heap h @ [\<lparr>vertex = v, distance = d\<rparr>],
                  positions := (positions h)(v \<mapsto> length (heap h))\<rparr>) ! i)) = Some i"
      using p nv by (auto simp: nth_append)
  next
    fix w i
    assume a: "positions (h\<lparr>heap := heap h @ [\<lparr>vertex = v, distance = d\<rparr>],
                  positions := (positions h)(v \<mapsto> length (heap h))\<rparr>) w = Some i"
    show "i < length (heap (h\<lparr>heap := heap h @ [\<lparr>vertex = v, distance = d\<rparr>],
                  positions := (positions h)(v \<mapsto> length (heap h))\<rparr>))"
      using a q[of w i] by (auto split: if_splits)
    show "vertex (heap (h\<lparr>heap := heap h @ [\<lparr>vertex = v, distance = d\<rparr>],
                  positions := (positions h)(v \<mapsto> length (heap h))\<rparr>) ! i) = w"
      using a q[of w i] by (auto simp: nth_append split: if_splits)
  qed
qed

lemma heapInsert_eq:
  "heapInsert h v d =
     heapifyUp (h\<lparr>heap := heap h @ [\<lparr>vertex = v, distance = d\<rparr>],
                  positions := (positions h)(v \<mapsto> length (heap h))\<rparr>) (length (heap h))"
  by (simp add: heapInsert_def Let_def)

lemma idx_ok_heapInsert:
  "idx_ok h \<Longrightarrow> positions h v = None \<Longrightarrow> idx_ok (heapInsert h v d)"
  unfolding heapInsert_eq
  using heapifyUp_struct[of "length (heap h)"
      "h\<lparr>heap := heap h @ [\<lparr>vertex = v, distance = d\<rparr>],
                  positions := (positions h)(v \<mapsto> length (heap h))\<rparr>"]
    idx_ok_push[of h v d]
  by simp

lemma mset_heapInsert:
  "mset (heap (heapInsert h v d)) = add_mset \<lparr>vertex = v, distance = d\<rparr> (mset (heap h))"
  unfolding heapInsert_eq
  using heapifyUp_struct[of "length (heap h)"
      "h\<lparr>heap := heap h @ [\<lparr>vertex = v, distance = d\<rparr>],
                  positions := (positions h)(v \<mapsto> length (heap h))\<rparr>"]
  by simp

lemma up_inv_push:
  assumes "heap_order hp"
  shows "up_inv (hp @ [x]) (length hp)"
  unfolding up_inv_def
proof (intro conjI allI impI)
  fix j assume "0 < j \<and> j < length (hp @ [x]) \<and> j \<noteq> length hp"
  then have j: "0 < j" "j < length hp" by auto
  then have "parent j < length hp" using parent_less[of j] by simp
  then show "distance ((hp @ [x]) ! parent j) \<le> distance ((hp @ [x]) ! j)"
    using assms j unfolding heap_order_def by (simp add: nth_append)
next
  fix j assume "0 < j \<and> j < length (hp @ [x]) \<and> parent j = length hp \<and> 0 < length hp"
  then have "parent j < j" "j \<le> length hp" "parent j = length hp"
    using parent_less[of j] by auto
  then have False by simp
  then show "distance ((hp @ [x]) ! parent (length hp)) \<le> distance ((hp @ [x]) ! j)" ..
qed

lemma heap_order_heapInsert:
  "heap_order (heap h) \<Longrightarrow> heap_order (heap (heapInsert h v d))"
  unfolding heapInsert_eq
  by (rule heapifyUp_order) (simp_all add: up_inv_push)

lemma heap_inv_heapInsert:
  "heap_inv h \<Longrightarrow> positions h v = None \<Longrightarrow> heap_inv (heapInsert h v d)"
  by (simp add: heap_inv_def idx_ok_heapInsert heap_order_heapInsert)

text \<open>\<open>decreaseKey\<close> on a vertex that is present.\<close>

lemma idx_ok_set_distance:
  assumes "idx_ok h" "i < length (heap h)"
  shows "idx_ok (h\<lparr>heap := (heap h)[i := (heap h ! i)\<lparr>distance := d\<rparr>]\<rparr>)"
  using assms unfolding idx_ok_def
  by (auto simp: nth_list_update)

lemma idx_ok_decreaseKey: "idx_ok h \<Longrightarrow> idx_ok (decreaseKey h v d)"
proof (cases "positions h v")
  case None
  assume "idx_ok h"
  then show ?thesis using None by (simp add: decreaseKey_def idx_ok_heapInsert)
next
  case (Some i)
  assume ok: "idx_ok h"
  then have i: "i < length (heap h)" using Some unfolding idx_ok_def by blast
  show ?thesis
    using Some heapifyUp_struct[of i "h\<lparr>heap := (heap h)[i := (heap h ! i)\<lparr>distance := d\<rparr>]\<rparr>"]
      idx_ok_set_distance[OF ok i, of d] i
    by (simp add: decreaseKey_def)
qed

lemma set_update_distinct:
  assumes "distinct (map vertex hp)" "i < length hp"
  shows "set (hp[i := (hp ! i)\<lparr>distance := d\<rparr>]) =
         insert ((hp ! i)\<lparr>distance := d\<rparr>) {e \<in> set hp. vertex e \<noteq> vertex (hp ! i)}"
proof -
  have inj: "\<And>k. k < length hp \<Longrightarrow> vertex (hp ! k) = vertex (hp ! i) \<Longrightarrow> k = i"
    using assms by (metis distinct_conv_nth length_map nth_map)
  show ?thesis
  proof (intro set_eqI iffI)
    fix x assume "x \<in> set (hp[i := (hp ! i)\<lparr>distance := d\<rparr>])"
    then obtain k where k: "k < length hp" "x = hp[i := (hp ! i)\<lparr>distance := d\<rparr>] ! k"
      by (auto simp: in_set_conv_nth)
    show "x \<in> insert ((hp ! i)\<lparr>distance := d\<rparr>) {e \<in> set hp. vertex e \<noteq> vertex (hp ! i)}"
    proof (cases "k = i")
      case True
      then show ?thesis using k assms(2) by simp
    next
      case False
      then have "x = hp ! k" using k by simp
      then show ?thesis using k(1) inj[OF k(1)] False by auto
    qed
  next
    fix x assume x: "x \<in> insert ((hp ! i)\<lparr>distance := d\<rparr>) {e \<in> set hp. vertex e \<noteq> vertex (hp ! i)}"
    show "x \<in> set (hp[i := (hp ! i)\<lparr>distance := d\<rparr>])"
    proof (cases "x = (hp ! i)\<lparr>distance := d\<rparr>")
      case True
      then show ?thesis using assms(2) by (auto simp: in_set_conv_nth intro!: exI[of _ i])
    next
      case False
      then obtain k where k: "k < length hp" "x = hp ! k" "vertex x \<noteq> vertex (hp ! i)"
        using x by (auto simp: in_set_conv_nth)
      then have "k \<noteq> i" by auto
      then have "hp[i := (hp ! i)\<lparr>distance := d\<rparr>] ! k = x" using k by simp
      then show ?thesis using k(1) by (auto simp: in_set_conv_nth intro!: exI[of _ k])
    qed
  qed
qed

lemma set_decreaseKey:
  assumes "idx_ok h"
  shows "set (heap (decreaseKey h v d)) =
         insert \<lparr>vertex = v, distance = d\<rparr> {e \<in> set (heap h). vertex e \<noteq> v}"
proof (cases "positions h v")
  case None
  then have "v \<notin> vertex ` set (heap h)" using idx_ok_contains[OF assms, of v] by simp
  then have "{e \<in> set (heap h). vertex e \<noteq> v} = set (heap h)" by auto
  moreover have "set (heap (heapInsert h v d)) = insert \<lparr>vertex = v, distance = d\<rparr> (set (heap h))"
    using mset_heapInsert[of h v d] by (metis set_mset_add_mset_insert set_mset_mset)
  ultimately show ?thesis using None by (simp add: decreaseKey_def)
next
  case (Some i)
  then have i: "i < length (heap h)" "vertex (heap h ! i) = v"
    using assms unfolding idx_ok_def by blast+
  let ?h = "h\<lparr>heap := (heap h)[i := (heap h ! i)\<lparr>distance := d\<rparr>]\<rparr>"
  have "mset (heap (heapifyUp ?h i)) = mset (heap ?h)"
    using heapifyUp_struct[of i ?h] i by simp
  then have a: "set (heap (heapifyUp ?h i)) = set (heap ?h)"
    by (metis set_mset_mset)
  have n: "(heap h ! i)\<lparr>distance := d\<rparr> = \<lparr>vertex = v, distance = d\<rparr>"
    using i(2) by (cases "heap h ! i") simp
  have b0: "set ((heap h)[i := (heap h ! i)\<lparr>distance := d\<rparr>]) =
      insert ((heap h ! i)\<lparr>distance := d\<rparr>) {e \<in> set (heap h). vertex e \<noteq> vertex (heap h ! i)}"
    by (rule set_update_distinct[OF idx_ok_distinct[OF assms] i(1)])
  have b: "set (heap ?h) = insert \<lparr>vertex = v, distance = d\<rparr> {e \<in> set (heap h). vertex e \<noteq> v}"
    using b0 unfolding n i(2) by simp
  have "decreaseKey h v d = heapifyUp ?h i"
    using Some by (simp add: decreaseKey_def)
  then show ?thesis using a b by simp
qed

lemma up_inv_lower:
  assumes "heap_order hp" "i < length hp" "d \<le> distance (hp ! i)"
  shows "up_inv (hp[i := (hp ! i)\<lparr>distance := d\<rparr>]) i"
  unfolding up_inv_def
proof (intro conjI allI impI)
  fix j assume "0 < j \<and> j < length (hp[i := (hp ! i)\<lparr>distance := d\<rparr>]) \<and> j \<noteq> i"
  then have j: "0 < j" "j < length hp" "j \<noteq> i" by auto
  have pj: "parent j < length hp" using parent_less[OF j(1)] j(2) by simp
  have "distance (hp ! parent j) \<le> distance (hp ! j)"
    using assms(1) j unfolding heap_order_def by simp
  then show "distance (hp[i := (hp ! i)\<lparr>distance := d\<rparr>] ! parent j)
          \<le> distance (hp[i := (hp ! i)\<lparr>distance := d\<rparr>] ! j)"
    using j pj assms(2,3) by (auto simp: nth_list_update)
next
  fix j assume "0 < j \<and> j < length (hp[i := (hp ! i)\<lparr>distance := d\<rparr>]) \<and> parent j = i \<and> 0 < i"
  then have j: "0 < j" "j < length hp" "parent j = i" "0 < i" by auto
  have ji: "j \<noteq> i" using parent_less[OF j(1)] j(3) by auto
  have ppi: "parent i < i" using j(4) by (rule parent_less)
  have "distance (hp ! parent i) \<le> distance (hp ! i)"
    using assms(1,2) j(4) unfolding heap_order_def by simp
  moreover have "distance (hp ! i) \<le> distance (hp ! j)"
    using assms(1) j unfolding heap_order_def by auto
  ultimately show "distance (hp[i := (hp ! i)\<lparr>distance := d\<rparr>] ! parent i)
          \<le> distance (hp[i := (hp ! i)\<lparr>distance := d\<rparr>] ! j)"
    using ji ppi assms(2) j(2) by (auto simp: nth_list_update)
qed

lemma heap_inv_decreaseKey:
  assumes "heap_inv h" "\<forall>e \<in> set (heap h). vertex e = v \<longrightarrow> d \<le> distance e"
  shows "heap_inv (decreaseKey h v d)"
proof (cases "positions h v")
  case None
  then show ?thesis using assms(1) by (simp add: decreaseKey_def heap_inv_heapInsert)
next
  case (Some i)
  have ok: "idx_ok h" and ord: "heap_order (heap h)" using assms(1) by (auto simp: heap_inv_def)
  have i: "i < length (heap h)" "vertex (heap h ! i) = v"
    using Some ok unfolding idx_ok_def by blast+
  have "heap h ! i \<in> set (heap h)" using i(1) by simp
  then have le: "d \<le> distance (heap h ! i)" using assms(2) i(2) by blast
  let ?h = "h\<lparr>heap := (heap h)[i := (heap h ! i)\<lparr>distance := d\<rparr>]\<rparr>"
  have "heap_order (heap (heapifyUp ?h i))"
    by (rule heapifyUp_order) (use i in \<open>simp_all add: up_inv_lower[OF ord i(1) le]\<close>)
  then show ?thesis
    using Some idx_ok_decreaseKey[OF ok, of v d] by (simp add: heap_inv_def decreaseKey_def)
qed

lemma extractMin_eq:
  "heap h \<noteq> [] \<Longrightarrow>
   extractMin h = (heap h ! 0, if heap (popRoot h) \<noteq> [] then heapifyDown (popRoot h) 0 else popRoot h)"
  by (simp add: extractMin_def popRoot_def Let_def)

lemma heap_popRoot_nth:
  "k < length (heap h) - 1 \<Longrightarrow>
   heap (popRoot h) ! k = (if k = 0 then last (heap h) else heap h ! k)"
  by (cases "heap h = []") (auto simp: popRoot_def nth_butlast nth_list_update)

lemma length_popRoot: "length (heap (popRoot h)) = length (heap h) - 1"
  by (simp add: popRoot_def)

lemma idx_ok_popRoot:
  assumes "idx_ok h" "heap h \<noteq> []"
  shows "idx_ok (popRoot h)"
proof -
  let ?n = "length (heap h)"
  have n: "0 < ?n" using assms(2) by simp
  have inj: "\<And>a b. a < ?n \<Longrightarrow> b < ?n \<Longrightarrow> vertex (heap h ! a) = vertex (heap h ! b) \<Longrightarrow> a = b"
    using idx_ok_inj[OF assms(1)] by blast
  have ne: "\<And>a b. a < ?n \<Longrightarrow> b < ?n \<Longrightarrow> a \<noteq> b \<Longrightarrow> vertex (heap h ! a) \<noteq> vertex (heap h ! b)"
    using inj by blast
  have p: "\<And>k. k < ?n \<Longrightarrow> positions h (vertex (heap h ! k)) = Some k"
    using assms(1) unfolding idx_ok_def by blast
  have q: "\<And>v k. positions h v = Some k \<Longrightarrow> k < ?n \<and> vertex (heap h ! k) = v"
    using assms(1) unfolding idx_ok_def by blast
  have l: "last (heap h) = heap h ! (?n - 1)" using assms(2) by (simp add: last_conv_nth)
  have pos: "\<And>v. positions (popRoot h) v =
      (if v = vertex (heap h ! 0) then None
       else if v = vertex (heap h ! (?n - 1)) then Some 0 else positions h v)"
    by (simp add: popRoot_def l)
  show ?thesis
    unfolding idx_ok_def
  proof (intro conjI allI impI)
    fix k assume "k < length (heap (popRoot h))"
    then have k: "k < ?n - 1" by (simp add: length_popRoot)
    show "positions (popRoot h) (vertex (heap (popRoot h) ! k)) = Some k"
    proof (cases "k = 0")
      case True
      have nn: "?n - 1 < ?n" "0 < ?n" "?n - 1 \<noteq> 0" using k by auto
      have "vertex (heap h ! (?n - 1)) \<noteq> vertex (heap h ! 0)"
        by (rule ne[OF nn])
      then show ?thesis using True heap_popRoot_nth[OF k] pos l by simp
    next
      case False
      have nn: "k < ?n" "0 < ?n" "?n - 1 < ?n" "k \<noteq> ?n - 1" using k by auto
      have "vertex (heap h ! k) \<noteq> vertex (heap h ! 0)"
        by (rule ne[OF nn(1,2) False])
      moreover have "vertex (heap h ! k) \<noteq> vertex (heap h ! (?n - 1))"
        by (rule ne[OF nn(1,3,4)])
      ultimately show ?thesis using False heap_popRoot_nth[OF k] pos p[of k] k by simp
    qed
  next
    fix v k assume a: "positions (popRoot h) v = Some k"
    then have v0: "v \<noteq> vertex (heap h ! 0)" using pos by auto
    show "k < length (heap (popRoot h))"
    proof (cases "v = vertex (heap h ! (?n - 1))")
      case True
      then have "k = 0" using a pos v0 by simp
      moreover have "?n - 1 \<noteq> 0" using True v0 by auto
      ultimately show ?thesis by (simp add: length_popRoot)
    next
      case False
      then have "positions h v = Some k" using a pos v0 by simp
      from q[OF this] False show ?thesis
        by (cases "k = ?n - 1") (auto simp: length_popRoot)
    qed
    show "vertex (heap (popRoot h) ! k) = v"
    proof (cases "v = vertex (heap h ! (?n - 1))")
      case True
      then have k0: "k = 0" using a pos v0 by simp
      moreover have "?n - 1 \<noteq> 0" using True v0 by auto
      ultimately have "0 < ?n - 1" by simp
      from heap_popRoot_nth[OF this] True l k0 show ?thesis by simp
    next
      case False
      then have pk: "positions h v = Some k" using a pos v0 by simp
      from q[OF this] False have k: "k < ?n - 1"
        by (cases "k = ?n - 1") auto
      have "k \<noteq> 0"
      proof
        assume "k = 0"
        with q[OF pk] v0 show False by simp
      qed
      then show ?thesis using heap_popRoot_nth[OF k] q[OF pk] by simp
    qed
  qed
qed

lemma mset_butlast_update:
  "xs \<noteq> [] \<Longrightarrow> add_mset (xs ! 0) (mset (butlast (xs[0 := last xs]))) = mset xs"
proof (cases xs)
  case Nil
  assume "xs \<noteq> []"
  with Nil show ?thesis by simp
next
  case (Cons x ys)
  show ?thesis
  proof (cases "ys = []")
    case True
    then show ?thesis using Cons by simp
  next
    case False
    then have "ys = butlast ys @ [last ys]" by simp
    then have "mset ys = add_mset (last ys) (mset (butlast ys))"
      by (metis mset.simps(2) mset_append union_mset_add_mset_right add.right_neutral mset.simps(1))
    then show ?thesis using Cons False by simp
  qed
qed

lemma mset_popRoot:
  "heap h \<noteq> [] \<Longrightarrow> add_mset (heap h ! 0) (mset (heap (popRoot h))) = mset (heap h)"
  by (simp add: popRoot_def mset_butlast_update)

lemma down_inv_popRoot:
  assumes "heap_order (heap h)"
  shows "down_inv (heap (popRoot h)) 0"
  unfolding down_inv_def
proof (intro conjI allI impI)
  fix j assume "0 < j \<and> j < length (heap (popRoot h)) \<and> parent j \<noteq> 0"
  then have j: "0 < j" "j < length (heap h) - 1" "parent j \<noteq> 0" by (auto simp: length_popRoot)
  have pj: "parent j < length (heap h) - 1" using parent_less[OF j(1)] j(2) by simp
  have "distance (heap h ! parent j) \<le> distance (heap h ! j)"
    using assms j unfolding heap_order_def by simp
  then show "distance (heap (popRoot h) ! parent j) \<le> distance (heap (popRoot h) ! j)"
    using heap_popRoot_nth[OF j(2)] heap_popRoot_nth[OF pj] j by simp
next
  fix j assume "0 < j \<and> j < length (heap (popRoot h)) \<and> parent j = 0 \<and> (0::nat) < 0"
  then show "distance (heap (popRoot h) ! parent 0) \<le> distance (heap (popRoot h) ! j)" by simp
qed

lemma fst_extractMin: "heap h \<noteq> [] \<Longrightarrow> fst (extractMin h) = heap h ! 0"
  by (simp add: extractMin_eq)

lemma idx_ok_extractMin: "idx_ok h \<Longrightarrow> idx_ok (snd (extractMin h))"
proof (cases "heap h = []")
  case True
  assume "idx_ok h"
  then show ?thesis using True by (simp add: extractMin_def)
next
  case False
  assume ok: "idx_ok h"
  have p: "idx_ok (popRoot h)" using idx_ok_popRoot[OF ok False] .
  show ?thesis
  proof (cases "heap (popRoot h) = []")
    case True
    then show ?thesis using p False by (simp add: extractMin_eq)
  next
    case F: False
    then have "0 < length (heap (popRoot h))" by simp
    from heapifyDown_struct[OF this] p show ?thesis using False F by (simp add: extractMin_eq)
  qed
qed

lemma mset_extractMin:
  assumes "heap h \<noteq> []"
  shows "add_mset (fst (extractMin h)) (mset (heap (snd (extractMin h)))) = mset (heap h)"
proof (cases "heap (popRoot h) = []")
  case True
  then show ?thesis using assms mset_popRoot[OF assms] by (simp add: extractMin_eq)
next
  case False
  then have "0 < length (heap (popRoot h))" by simp
  from heapifyDown_struct[OF this] show ?thesis
    using assms False mset_popRoot[OF assms] by (simp add: extractMin_eq)
qed

lemma heap_inv_extractMin: "heap_inv h \<Longrightarrow> heap_inv (snd (extractMin h))"
proof (cases "heap h = []")
  case True
  assume "heap_inv h"
  then show ?thesis using True by (simp add: extractMin_def)
next
  case False
  assume inv: "heap_inv h"
  then have ok: "idx_ok (snd (extractMin h))" by (simp add: heap_inv_def idx_ok_extractMin)
  have ord: "heap_order (heap h)" using inv by (simp add: heap_inv_def)
  show ?thesis
  proof (cases "heap (popRoot h) = []")
    case True
    then show ?thesis using ok False by (simp add: extractMin_eq heap_inv_def heap_order_def)
  next
    case F: False
    then have "0 < length (heap (popRoot h))" by simp
    from heapifyDown_order[OF this down_inv_popRoot[OF ord]]
    show ?thesis using ok False F by (simp add: extractMin_eq heap_inv_def)
  qed
qed

lemma extractMin_min:
  assumes "heap_inv h" "e \<in> set (heap h)"
  shows "distance (fst (extractMin h)) \<le> distance e"
proof -
  from assms(2) obtain i where i: "i < length (heap h)" "e = heap h ! i"
    by (auto simp: in_set_conv_nth)
  then have "heap h \<noteq> []" by auto
  then show ?thesis
    using heap_order_root_min[of "heap h" i] assms(1) i by (simp add: fst_extractMin heap_inv_def)
qed










section \<open>Graphs and walks\<close>

lemma graphOk_edge:
  assumes "graphOk g" "inRange g u" "e \<in> set (adjacencyList g ! nat u)"
  shows "inRange g (destination e) \<and> 0 \<le> weight e"
proof -
  have len: "length (adjacencyList g) = nat (numVertices g)" and v: "validate g"
    using assms(1) by (auto simp: graphOk_def)
  have u: "nat u < length (adjacencyList g)" using assms(2) len by (auto simp: inRange_def)
  then have "adjacencyList g ! nat u \<in> set (adjacencyList g)" by simp
  then have "\<not> (destination e < 0 \<or> destination e \<ge> numVertices g) \<and> \<not> weight e < 0"
    using v assms(3) len unfolding validate_def list_all_iff by auto
  then show ?thesis by (auto simp: inRange_def)
qed

lemma graphOk_node: "graphOk g \<Longrightarrow> nodeExists g v \<Longrightarrow> inRange g v"
  by (auto simp: graphOk_def nodeExists_def inRange_def dom_def subset_iff)

lemma getAdjacentNodes_inRange:
  "inRange g u \<Longrightarrow> getAdjacentNodes g u = Inr (adjacencyList g ! nat u)"
  by (auto simp: getAdjacentNodes_def inRange_def)

lemma isWalk_start: "isWalk g u es \<Longrightarrow> inRange g u"
  by (cases es) auto

lemma isWalk_append:
  "isWalk g u (es @ fs) = (isWalk g u es \<and> isWalk g (walkEnd u es) fs)"
  by (induction es arbitrary: u) (auto dest: isWalk_start)

lemma walkEnd_append: "walkEnd u (es @ fs) = walkEnd (walkEnd u es) fs"
  by (induction es arbitrary: u) auto

lemma walkWeight_Nil [simp]: "walkWeight [] = 0"
  by (simp add: walkWeight_def)

lemma walkWeight_snoc [simp]: "walkWeight (es @ [e]) = walkWeight es + weight e"
  by (simp add: walkWeight_def)

lemma isWalk_end: "graphOk g \<Longrightarrow> isWalk g u es \<Longrightarrow> inRange g (walkEnd u es)"
  by (induction es arbitrary: u) auto

lemma isWalk_snoc:
  assumes "graphOk g"
  shows "isWalk g u (es @ [e]) =
         (isWalk g u es \<and> e \<in> set (adjacencyList g ! nat (walkEnd u es)))"
  using graphOk_edge[OF assms] isWalk_end[OF assms]
  by (auto simp: isWalk_append)

lemma nth_update_int:
  "0 \<le> v \<Longrightarrow> 0 \<le> x \<Longrightarrow> nat v < length xs \<Longrightarrow>
   xs[nat v := a] ! nat x = (if x = v then a else xs ! nat x)"
  by (auto simp: nth_list_update)

section \<open>The search keeps its invariant\<close>

lemma chain_update:
  "chain P s x k \<Longrightarrow> v \<notin> set (chainList P x k) \<Longrightarrow> 0 \<le> v \<Longrightarrow>
   chain (P[nat v := u]) s x k \<and> chainList (P[nat v := u]) x k = chainList P x k"
proof (induction k arbitrary: x)
  case 0
  then show ?case by auto
next
  case (Suc k)
  then have x: "x \<noteq> v" "0 \<le> x" "nat x < length P" by auto
  then have "nat x \<noteq> nat v" using Suc.prems(3) by auto
  then have nth: "P[nat v := u] ! nat x = P ! nat x" by simp
  show ?case using Suc x nth by simp
qed

lemma chain_nodes_settled:
  assumes po: "predOk g s r pq" and len: "length (predecessors r) = nat (numVertices g)"
  shows "chain (predecessors r) s x k \<Longrightarrow> inRange g x \<Longrightarrow> dAt r x \<noteq> PosInf \<Longrightarrow>
         set (chainList (predecessors r) x k) \<subseteq> insert x (insert s (settled g r pq))"
proof (induction k arbitrary: x)
  case 0
  then show ?case by simp
next
  case (Suc k)
  then have xs: "x \<noteq> s" and c: "chain (predecessors r) s (pAt r x) k" by auto
  have p: "pAt r x \<in> settled g r pq" using po Suc.prems(2,3) xs unfolding predOk_def by blast
  then have "inRange g (pAt r x)" "dAt r (pAt r x) \<noteq> PosInf" by (auto simp: settled_def)
  from Suc.IH[OF c this] p show ?case by auto
qed

lemma settled_inRange: "x \<in> settled g r pq \<Longrightarrow> inRange g x \<and> dAt r x \<noteq> PosInf \<and> x \<notin> queued pq"
  by (simp add: settled_def)

text \<open>
  One turn of the inner loop that lowers the distance of \<open>destination e\<close>: the invariant
  holds for the remaining edges, and the set of settled vertices is the same.
\<close>

lemma relax_step_update:
  assumes G: "graphOk g"
    and I: "relaxInv g s u (e # rest) r pq"
    and eu: "e \<in> set (adjacencyList g ! nat u)"
    and lt: "dAt r u + weight e < dAt r (destination e)"
  shows "relaxInv g s u rest
           (r\<lparr>distances := (distances r)[nat (destination e) := dAt r u + weight e],
              predecessors := (predecessors r)[nat (destination e) := u]\<rparr>)
           (decreaseKey pq (destination e) (dAt r u + weight e))
       \<and> settled g
           (r\<lparr>distances := (distances r)[nat (destination e) := dAt r u + weight e],
              predecessors := (predecessors r)[nat (destination e) := u]\<rparr>)
           (decreaseKey pq (destination e) (dAt r u + weight e)) = settled g r pq"
proof -
  define v where "v = destination e"
  define nd where "nd = dAt r u + weight e"
  define r' where "r' = r\<lparr>distances := (distances r)[nat v := nd],
                         predecessors := (predecessors r)[nat v := u]\<rparr>"
  define pq' where "pq' = decreaseKey pq v nd"
  let ?S = "settled g r pq"
  have inv: "dijkstraInv g s r pq ({u} \<times> set (e # rest))" and uS: "u \<in> ?S"
    and m: "\<forall>x \<in> ?S. dAt r x \<le> dAt r u"
    using I by (auto simp: relaxInv_def)
  have hi: "heap_inv pq" and sh: "shape g s r" and ha: "heapAgrees g r pq"
    and re: "reached g s r" and rl: "relaxed g r pq ({u} \<times> set (e # rest))"
    and sf: "settledFirst g r pq" and po: "predOk g s r pq" and ch: "chained g s r"
    using inv by (auto simp: dijkstraInv_def)
  have ok: "idx_ok pq" using hi by (simp add: heap_inv_def)
  have lenD: "length (distances r) = nat (numVertices g)"
    and lenP: "length (predecessors r) = nat (numVertices g)"
    and sR: "inRange g s" and ds: "dAt r s = 0" and ps: "pAt r s = - 1" and su: "success r"
    using sh by (auto simp: shape_def)
  have uR: "inRange g u" and uF: "dAt r u \<noteq> PosInf" and uQ: "u \<notin> queued pq"
    using settled_inRange[OF uS] by auto
  have vR: "inRange g v" and w0: "0 \<le> weight e"
    using graphOk_edge[OF G uR eu] by (auto simp: v_def)
  have u0: "0 \<le> dAt r u" and uD: "isDouble (dAt r u)"
    using re uR uF unfolding reached_def by blast+
  have lt': "nd < dAt r v" using lt by (simp add: nd_def v_def)
  have ndF: "nd \<noteq> PosInf" using lt' by (cases nd) auto
  have nd0: "0 \<le> nd" unfolding nd_def by (rule double_add_nonneg[OF u0 w0])
  have ndD: "isDouble nd" unfolding nd_def by (rule isDouble_add[OF u0 w0])
  have und: "dAt r u \<le> nd" unfolding nd_def by (rule double_le_add[OF uD w0])
  have vS: "v \<notin> ?S"
  proof
    assume "v \<in> ?S"
    then have "dAt r v \<le> dAt r u" using m by blast
    then show False using und lt' by simp
  qed
  have vs: "v \<noteq> s"
  proof
    assume "v = s"
    then have "nd < 0" using lt' ds by simp
    then show False using nd0 by simp
  qed
  have uv: "u \<noteq> v" using uS vS by auto
  have v0: "0 \<le> v" and vn: "nat v < nat (numVertices g)"
    using vR by (auto simp: inRange_def)
  have dr: "\<And>x. inRange g x \<Longrightarrow> dAt r' x = (if x = v then nd else dAt r x)"
    unfolding r'_def using v0 vn lenD by (simp add: nth_update_int inRange_def)
  have pr: "\<And>x. inRange g x \<Longrightarrow> pAt r' x = (if x = v then u else pAt r x)"
    unfolding r'_def using v0 vn lenP by (simp add: nth_update_int inRange_def)
  have hp: "set (heap pq') = insert \<lparr>vertex = v, distance = nd\<rparr> {a \<in> set (heap pq). vertex a \<noteq> v}"
    unfolding pq'_def by (rule set_decreaseKey[OF ok])
  have q': "queued pq' = insert v (queued pq)"
    unfolding queued_def hp by (auto simp: image_iff)
  have S': "settled g r' pq' = ?S"
  proof (rule set_eqI)
    fix x
    show "(x \<in> settled g r' pq') = (x \<in> ?S)"
    proof (cases "x = v")
      case True
      then show ?thesis using vS q' by (simp add: settled_def)
    next
      case False
      then have "inRange g x \<Longrightarrow> dAt r' x = dAt r x" using dr by simp
      then show ?thesis using q' False by (simp add: settled_def cong: conj_cong)
    qed
  qed
  have drS: "\<And>x. x \<in> ?S \<Longrightarrow> dAt r' x = dAt r x"
  proof -
    fix x assume x: "x \<in> ?S"
    then have "x \<noteq> v" using vS by auto
    then show "dAt r' x = dAt r x" using dr settled_inRange[OF x] by simp
  qed
  have hi': "heap_inv pq'"
    unfolding pq'_def
  proof (rule heap_inv_decreaseKey[OF hi], intro ballI impI)
    fix a assume "a \<in> set (heap pq)" "vertex a = v"
    then have "distance a = dAt r v" using ha unfolding heapAgrees_def by auto
    then show "nd \<le> distance a" using lt' by simp
  qed
  have sh': "shape g s r'"
    using sh dr[OF sR] pr[OF sR] vs by (simp add: shape_def r'_def)
  have ha': "heapAgrees g r' pq'"
    unfolding heapAgrees_def
  proof (intro ballI)
    fix a assume "a \<in> set (heap pq')"
    then consider "a = \<lparr>vertex = v, distance = nd\<rparr>" | "a \<in> set (heap pq)" "vertex a \<noteq> v"
      unfolding hp by auto
    then show "inRange g (vertex a) \<and> dAt r' (vertex a) = distance a \<and> distance a \<noteq> PosInf"
    proof cases
      case 1
      then show ?thesis using vR dr[OF vR] ndF by simp
    next
      case 2
      then have "inRange g (vertex a) \<and> dAt r (vertex a) = distance a \<and> distance a \<noteq> PosInf"
        using ha unfolding heapAgrees_def by blast
      then show ?thesis using dr[of "vertex a"] 2(2) by simp
    qed
  qed
  have re': "reached g s r'"
    unfolding reached_def
  proof (intro allI impI)
    fix x assume x: "inRange g x \<and> dAt r' x \<noteq> PosInf"
    show "0 \<le> dAt r' x \<and> isDouble (dAt r' x)
          \<and> (\<exists>es. isWalk g s es \<and> walkEnd s es = x \<and> walkWeight es = dAt r' x)"
    proof (cases "x = v")
      case True
      obtain es where es: "isWalk g s es" "walkEnd s es = u" "walkWeight es = dAt r u"
        using re uR uF unfolding reached_def by blast
      have "isWalk g s (es @ [e])" using es eu by (simp add: isWalk_snoc[OF G])
      moreover have "walkEnd s (es @ [e]) = v" by (simp add: walkEnd_append v_def)
      moreover have "walkWeight (es @ [e]) = nd"
        using es(3) by (simp add: nd_def)
      ultimately show ?thesis using True dr[OF vR] nd0 ndD by auto
    next
      case False
      then have "dAt r' x = dAt r x" using dr x by simp
      then show ?thesis using re x unfolding reached_def by auto
    qed
  qed
  have rl': "relaxed g r' pq' ({u} \<times> set rest)"
    unfolding relaxed_def S'
  proof (intro ballI impI)
    fix x a assume x: "x \<in> ?S" and a: "a \<in> set (adjacencyList g ! nat x)"
      and nx: "(x, a) \<notin> {u} \<times> set rest"
    have xR: "inRange g x" using settled_inRange[OF x] by simp
    have aR: "inRange g (destination a)" using graphOk_edge[OF G xR a] by simp
    have down: "dAt r' (destination a) \<le> dAt r (destination a)"
      using dr[OF aR] lt' by auto
    show "dAt r' (destination a) \<le> dAt r' x + weight a"
    proof (cases "(x, a) \<in> {u} \<times> set (e # rest)")
      case True
      then have "x = u" "a = e" using nx by auto
      then show ?thesis using dr[OF vR] drS[OF uS] by (simp add: nd_def v_def)
    next
      case False
      then have "dAt r (destination a) \<le> dAt r x + weight a"
        using rl x a unfolding relaxed_def by blast
      then show ?thesis using down drS[OF x] by simp
    qed
  qed
  have sf': "settledFirst g r' pq'"
    unfolding settledFirst_def S'
  proof (intro ballI)
    fix x a assume x: "x \<in> ?S" and "a \<in> set (heap pq')"
    then consider "a = \<lparr>vertex = v, distance = nd\<rparr>" | "a \<in> set (heap pq)"
      unfolding hp by auto
    then show "dAt r' x \<le> distance a"
    proof cases
      case 1
      have "dAt r x \<le> dAt r u" using m x by blast
      then show ?thesis using 1 und drS[OF x] by simp
    next
      case 2
      then show ?thesis using sf x drS[OF x] unfolding settledFirst_def by auto
    qed
  qed
  have po': "predOk g s r' pq'"
    unfolding predOk_def S'
  proof (intro allI impI)
    fix x assume x: "inRange g x \<and> x \<noteq> s \<and> dAt r' x \<noteq> PosInf"
    show "pAt r' x \<in> ?S \<and>
          (\<exists>a \<in> set (adjacencyList g ! nat (pAt r' x)).
             destination a = x \<and> dAt r' x = dAt r' (pAt r' x) + weight a)"
    proof (cases "x = v")
      case True
      have "pAt r' x = u" using pr[OF vR] True by simp
      moreover have "dAt r' x = dAt r' u + weight e"
        using True dr[OF vR] drS[OF uS] by (simp add: nd_def)
      ultimately show ?thesis using uS eu True by (auto simp: v_def)
    next
      case False
      then have e1: "pAt r' x = pAt r x" "dAt r' x = dAt r x" using pr dr x by auto
      then have old: "pAt r x \<in> ?S \<and>
          (\<exists>a \<in> set (adjacencyList g ! nat (pAt r x)).
             destination a = x \<and> dAt r x = dAt r (pAt r x) + weight a)"
        using po x unfolding predOk_def by auto
      then have "dAt r' (pAt r x) = dAt r (pAt r x)" using drS by blast
      then show ?thesis using old e1 by simp
    qed
  qed
  have P': "predecessors r' = (predecessors r)[nat v := u]" by (simp add: r'_def)
  have ch': "chained g s r'"
    unfolding chained_def
  proof (intro allI impI)
    fix x assume x: "inRange g x \<and> dAt r' x \<noteq> PosInf"
    obtain ku where ku: "chain (predecessors r) s u ku"
      using ch uR uF unfolding chained_def by blast
    have "set (chainList (predecessors r) u ku) \<subseteq> insert u (insert s ?S)"
      by (rule chain_nodes_settled[OF po lenP ku uR uF])
    then have "v \<notin> set (chainList (predecessors r) u ku)" using uv vs vS by auto
    from chain_update[OF ku this v0]
    have cu: "chain (predecessors r') s u ku" unfolding P' by simp
    show "\<exists>k. chain (predecessors r') s x k"
    proof (cases "x = v")
      case True
      have "chain (predecessors r') s v (Suc ku)"
        using cu vs v0 vn lenP pr[OF vR] by (simp add: P')
      then show ?thesis using True by blast
    next
      case False
      then have xF: "dAt r x \<noteq> PosInf" using dr x by auto
      then obtain k where k: "chain (predecessors r) s x k"
        using ch x unfolding chained_def by blast
      have "set (chainList (predecessors r) x k) \<subseteq> insert x (insert s ?S)"
        using chain_nodes_settled[OF po lenP k] x xF by blast
      then have "v \<notin> set (chainList (predecessors r) x k)" using False vs vS by auto
      from chain_update[OF k this v0] show ?thesis unfolding P' by blast
    qed
  qed
  have "dijkstraInv g s r' pq' ({u} \<times> set rest)"
    unfolding dijkstraInv_def using hi' sh' ha' re' rl' sf' po' ch' by simp
  moreover have "u \<in> settled g r' pq'" using uS S' by simp
  moreover have "\<forall>x \<in> settled g r' pq'. dAt r' x \<le> dAt r' u"
    unfolding S' using m drS uS by simp
  ultimately have "relaxInv g s u rest r' pq'" by (simp add: relaxInv_def)
  then show ?thesis using S' by (simp add: r'_def pq'_def v_def nd_def)
qed

lemma relax_step_keep:
  assumes I: "relaxInv g s u (e # rest) r pq"
    and nlt: "\<not> dAt r u + weight e < dAt r (destination e)"
  shows "relaxInv g s u rest r pq"
proof -
  have rl: "relaxed g r pq ({u} \<times> set (e # rest))"
    using I by (simp add: relaxInv_def dijkstraInv_def)
  have "relaxed g r pq ({u} \<times> set rest)"
    unfolding relaxed_def
  proof (intro ballI impI)
    fix x a assume x: "x \<in> settled g r pq" and a: "a \<in> set (adjacencyList g ! nat x)"
      and nx: "(x, a) \<notin> {u} \<times> set rest"
    show "dAt r (destination a) \<le> dAt r x + weight a"
    proof (cases "(x, a) \<in> {u} \<times> set (e # rest)")
      case True
      then have "x = u" "a = e" using nx by auto
      then show ?thesis using nlt by simp
    next
      case False
      then show ?thesis using rl x a unfolding relaxed_def by blast
    qed
  qed
  then show ?thesis using I by (simp add: relaxInv_def dijkstraInv_def)
qed

lemma relaxEdges_inv:
  assumes G: "graphOk g"
  shows "set pend \<subseteq> set (adjacencyList g ! nat u) \<Longrightarrow> relaxInv g s u pend r pq \<Longrightarrow>
         relaxInv g s u [] (fst (relaxEdges u pend r pq)) (snd (relaxEdges u pend r pq))
         \<and> settled g (fst (relaxEdges u pend r pq)) (snd (relaxEdges u pend r pq))
             = settled g r pq"
proof (induction pend arbitrary: r pq)
  case Nil
  then show ?case by simp
next
  case (Cons e rest)
  have eu: "e \<in> set (adjacencyList g ! nat u)" and sub: "set rest \<subseteq> set (adjacencyList g ! nat u)"
    using Cons.prems(1) by auto
  show ?case
  proof (cases "dAt r u + weight e < dAt r (destination e)")
    case True
    let ?r = "r\<lparr>distances := (distances r)[nat (destination e) := dAt r u + weight e],
              predecessors := (predecessors r)[nat (destination e) := u]\<rparr>"
    let ?pq = "decreaseKey pq (destination e) (dAt r u + weight e)"
    have step: "relaxInv g s u rest ?r ?pq" and S: "settled g ?r ?pq = settled g r pq"
      using relax_step_update[OF G Cons.prems(2) eu True] by auto
    have eq: "relaxEdges u (e # rest) r pq = relaxEdges u rest ?r ?pq"
      using True by (simp add: Let_def)
    show ?thesis unfolding eq using Cons.IH[OF sub step] S by simp
  next
    case False
    have step: "relaxInv g s u rest r pq" by (rule relax_step_keep[OF Cons.prems(2) False])
    have eq: "relaxEdges u (e # rest) r pq = relaxEdges u rest r pq"
      using False by (simp add: Let_def)
    show ?thesis unfolding eq using Cons.IH[OF sub step] by simp
  qed
qed

text \<open>
  One \<open>extractMin\<close>: the vertex taken is not stale, it becomes settled, and the invariant
  of the inner loop holds with all its edges pending.
\<close>

lemma extract_step:
  assumes I: "dijkstraInv g s r pq {}" and ne: "heap pq \<noteq> []"
  shows "\<not> distance (fst (extractMin pq)) > dAt r (vertex (fst (extractMin pq)))
       \<and> inRange g (vertex (fst (extractMin pq)))
       \<and> relaxInv g s (vertex (fst (extractMin pq)))
            (adjacencyList g ! nat (vertex (fst (extractMin pq)))) r (snd (extractMin pq))
       \<and> settled g r (snd (extractMin pq)) = insert (vertex (fst (extractMin pq))) (settled g r pq)
       \<and> vertex (fst (extractMin pq)) \<notin> settled g r pq"
proof -
  define cur where "cur = fst (extractMin pq)"
  define pq1 where "pq1 = snd (extractMin pq)"
  define u where "u = vertex cur"
  let ?S = "settled g r pq"
  have hi: "heap_inv pq" and sh: "shape g s r" and ha: "heapAgrees g r pq"
    and re: "reached g s r" and rl: "relaxed g r pq {}"
    and sf: "settledFirst g r pq" and po: "predOk g s r pq" and ch: "chained g s r"
    using I by (auto simp: dijkstraInv_def)
  have ms: "add_mset cur (mset (heap pq1)) = mset (heap pq)"
    unfolding cur_def pq1_def by (rule mset_extractMin[OF ne])
  then have hs: "set (heap pq) = insert cur (set (heap pq1))"
    by (metis set_mset_add_mset_insert set_mset_mset)
  have "mset (map vertex (heap pq)) = mset (map vertex (cur # heap pq1))"
    using ms by (metis mset.simps(2) mset_map)
  then have "distinct (map vertex (heap pq)) = distinct (map vertex (cur # heap pq1))"
    by (rule mset_eq_imp_distinct_iff)
  then have unq: "u \<notin> vertex ` set (heap pq1)"
    using idx_ok_distinct[of pq] hi by (simp add: heap_inv_def u_def)
  have q: "queued pq = insert u (queued pq1)" and uq: "u \<notin> queued pq1"
    using hs unq by (auto simp: queued_def u_def)
  have cin: "cur \<in> set (heap pq)" using hs by simp
  then have uR: "inRange g u" and du: "dAt r u = distance cur" and uF: "distance cur \<noteq> PosInf"
    using ha unfolding heapAgrees_def u_def by blast+
  have uS: "u \<notin> ?S" using q by (simp add: settled_def)
  have S1: "settled g r pq1 = insert u ?S"
    using q uq uR du uF by (auto simp: settled_def)
  have hi1: "heap_inv pq1" unfolding pq1_def by (rule heap_inv_extractMin[OF hi])
  have ha1: "heapAgrees g r pq1" using ha hs by (simp add: heapAgrees_def)
  have rl1: "relaxed g r pq1 ({u} \<times> set (adjacencyList g ! nat u))"
    unfolding relaxed_def S1
  proof (intro ballI impI)
    fix x a assume x: "x \<in> insert u ?S" and a: "a \<in> set (adjacencyList g ! nat x)"
      and nx: "(x, a) \<notin> {u} \<times> set (adjacencyList g ! nat u)"
    then have "x \<noteq> u" by auto
    then have "x \<in> ?S" using x by simp
    then show "dAt r (destination a) \<le> dAt r x + weight a"
      using rl a unfolding relaxed_def by blast
  qed
  have min: "\<And>a. a \<in> set (heap pq) \<Longrightarrow> distance cur \<le> distance a"
    unfolding cur_def by (rule extractMin_min[OF hi])
  have sf1: "settledFirst g r pq1"
    unfolding settledFirst_def S1
  proof (intro ballI)
    fix x a assume x: "x \<in> insert u ?S" and a: "a \<in> set (heap pq1)"
    then have a': "a \<in> set (heap pq)" using hs by simp
    show "dAt r x \<le> distance a"
    proof (cases "x = u")
      case True
      then show ?thesis using min[OF a'] du by simp
    next
      case False
      then have "x \<in> ?S" using x by simp
      then show ?thesis using sf a' unfolding settledFirst_def by blast
    qed
  qed
  have po1: "predOk g s r pq1"
    using po unfolding predOk_def S1 by blast
  have m: "\<forall>x \<in> settled g r pq1. dAt r x \<le> dAt r u"
    unfolding S1
  proof
    fix x assume x: "x \<in> insert u ?S"
    show "dAt r x \<le> dAt r u"
    proof (cases "x = u")
      case True
      then show ?thesis by simp
    next
      case False
      then have "x \<in> ?S" using x by simp
      then have "dAt r x \<le> distance cur" using sf cin unfolding settledFirst_def by blast
      then show ?thesis using du by simp
    qed
  qed
  have "dijkstraInv g s r pq1 ({u} \<times> set (adjacencyList g ! nat u))"
    unfolding dijkstraInv_def using hi1 sh ha1 re rl1 sf1 po1 ch by simp
  then have "relaxInv g s u (adjacencyList g ! nat u) r pq1"
    using m S1 by (simp add: relaxInv_def)
  then show ?thesis
    using du uR S1 uS unfolding cur_def[symmetric] pq1_def[symmetric] u_def[symmetric]
    by simp
qed

lemma relaxInv_done: "relaxInv g s u [] r pq \<Longrightarrow> dijkstraInv g s r pq {}"
  by (simp add: relaxInv_def)

lemma finite_inRange: "finite {v. inRange g v}"
proof -
  have "{v. inRange g v} = {0..<numVertices g}" by (auto simp: inRange_def)
  then show ?thesis by simp
qed

text \<open>
  The loop ends: every turn settles one more vertex. It ends with the invariant and an
  empty heap.
\<close>

lemma dijkstraLoop_total:
  assumes G: "graphOk g"
  shows "dijkstraInv g s r pq {} \<Longrightarrow> \<exists>r'. dijkstraLoop g r pq = Some r' \<and> searchDone g s r'"
proof (induction "card ({v. inRange g v} - settled g r pq)" arbitrary: r pq rule: less_induct)
  case less
  show ?case
  proof (cases "heap pq = []")
    case True
    then have "dijkstraLoop g r pq = Some r"
      by (subst dijkstraLoop.simps) (simp add: isEmpty_def)
    moreover have "searchDone g s r" using less.prems True unfolding searchDone_def by blast
    ultimately show ?thesis by blast
  next
    case False
    define cur where "cur = fst (extractMin pq)"
    define pq1 where "pq1 = snd (extractMin pq)"
    define u where "u = vertex cur"
    define r1 where "r1 = fst (relaxEdges u (adjacencyList g ! nat u) r pq1)"
    define pq2 where "pq2 = snd (relaxEdges u (adjacencyList g ! nat u) r pq1)"
    have ex: "extractMin pq = (cur, pq1)" by (simp add: cur_def pq1_def)
    have rx: "relaxEdges u (adjacencyList g ! nat u) r pq1 = (r1, pq2)"
      by (simp add: r1_def pq2_def)
    from extract_step[OF less.prems False]
    have st: "\<not> distance cur > dAt r u" and uR: "inRange g u"
      and ri: "relaxInv g s u (adjacencyList g ! nat u) r pq1"
      and S1: "settled g r pq1 = insert u (settled g r pq)" and uS: "u \<notin> settled g r pq"
      unfolding cur_def[symmetric] pq1_def[symmetric] u_def[symmetric] by auto
    from relaxEdges_inv[OF G _ ri]
    have ri2: "relaxInv g s u [] r1 pq2" and S2: "settled g r1 pq2 = settled g r pq1"
      unfolding r1_def pq2_def by auto
    have inv2: "dijkstraInv g s r1 pq2 {}" by (rule relaxInv_done[OF ri2])
    have "{v. inRange g v} - settled g r1 pq2 \<subset> {v. inRange g v} - settled g r pq"
      using S1 S2 uS uR by auto
    then have "card ({v. inRange g v} - settled g r1 pq2) < card ({v. inRange g v} - settled g r pq)"
      using finite_inRange[of g] by (intro psubset_card_mono) auto
    from less.hyps[OF this inv2] obtain r' where
      r': "dijkstraLoop g r1 pq2 = Some r'" "searchDone g s r'" by blast
    have "dijkstraLoop g r pq = dijkstraLoop g r1 pq2"
      apply (subst dijkstraLoop.simps)
      using False st ex rx getAdjacentNodes_inRange[OF uR]
      by (simp add: isEmpty_def u_def)
    then show ?thesis using r' by simp
  qed
qed

lemma heap_single: "heap (heapInsert emptyHeap s d) = [\<lparr>vertex = s, distance = d\<rparr>]"
  by (simp add: heapInsert_def emptyHeap_def Let_def heapifyUp.simps)

lemma initial_inv:
  assumes G: "graphOk g" and s: "nodeExists g s"
  shows "dijkstraInv g s
           \<lparr>distances = (replicate (nat (getNumVertices g)) PosInf)[nat s := 0],
            predecessors = replicate (nat (getNumVertices g)) (- 1),
            success = True, errorMessage = []\<rparr>
           (heapInsert emptyHeap s 0) {}"
proof -
  define r where "r = \<lparr>distances = (replicate (nat (getNumVertices g)) PosInf)[nat s := 0],
            predecessors = replicate (nat (getNumVertices g)) (- 1),
            success = True, errorMessage = []\<rparr>"
  define pq where "pq = heapInsert emptyHeap s 0"
  have sR: "inRange g s" by (rule graphOk_node[OF G s])
  then have s0: "0 \<le> s" and sn: "nat s < nat (numVertices g)" by (auto simp: inRange_def)
  have hp: "heap pq = [\<lparr>vertex = s, distance = 0\<rparr>]" unfolding pq_def by (rule heap_single)
  have q: "queued pq = {s}" by (simp add: queued_def hp)
  have dr: "\<And>x. inRange g x \<Longrightarrow> dAt r x = (if x = s then 0 else PosInf)"
    unfolding r_def using s0 sn by (simp add: nth_update_int inRange_def getNumVertices_def)
  have pr: "\<And>x. inRange g x \<Longrightarrow> pAt r x = - 1"
    unfolding r_def by (simp add: inRange_def getNumVertices_def)
  have S: "settled g r pq = {}"
    using q dr by (auto simp: settled_def)
  have hi: "heap_inv pq"
    unfolding pq_def by (rule heap_inv_heapInsert[OF heap_inv_empty]) (simp add: emptyHeap_def)
  have sh: "shape g s r"
    using sR dr[OF sR] pr[OF sR] by (simp add: shape_def) (simp add: r_def getNumVertices_def)
  have ha: "heapAgrees g r pq"
    using sR dr[OF sR] by (simp add: heapAgrees_def hp)
  have re: "reached g s r"
    unfolding reached_def
  proof (intro allI impI)
    fix v assume v: "inRange g v \<and> dAt r v \<noteq> PosInf"
    then have "v = s" using dr[of v] by (auto split: if_splits)
    moreover have "isWalk g s []" "walkEnd s [] = s" "walkWeight [] = dAt r s"
      using sR dr[OF sR] by simp_all
    moreover have "isDouble (dAt r s)" using dr[OF sR] by (simp add: zero_double_def)
    ultimately show "0 \<le> dAt r v \<and> isDouble (dAt r v)
        \<and> (\<exists>es. isWalk g s es \<and> walkEnd s es = v \<and> walkWeight es = dAt r v)"
      using dr[OF sR] by (metis order_refl)
  qed
  have po: "predOk g s r pq"
    unfolding predOk_def using dr by auto
  have ch: "chained g s r"
    unfolding chained_def
  proof (intro allI impI)
    fix v assume v: "inRange g v \<and> dAt r v \<noteq> PosInf"
    then have "v = s" using dr[of v] by (auto split: if_splits)
    moreover have "chain (predecessors r) s s 0"
      using s0 sn by (simp add: r_def getNumVertices_def)
    ultimately show "\<exists>k. chain (predecessors r) s v k" by blast
  qed
  have "dijkstraInv g s r pq {}"
    unfolding dijkstraInv_def using hi sh ha re po ch S
    by (simp add: relaxed_def settledFirst_def)
  then show ?thesis by (simp add: r_def pq_def)
qed

lemma findShortestPaths_total:
  assumes G: "graphOk g" and s: "nodeExists g s"
  shows "\<exists>r. findShortestPaths g s = Some r \<and> searchDone g s r"
  using dijkstraLoop_total[OF G initial_inv[OF G s]] s
  by (simp add: findShortestPaths_def Let_def)

lemma searchDone_settled:
  assumes "dijkstraInv g s r pq {}" "heap pq = []" "inRange g v" "dAt r v \<noteq> PosInf"
  shows "v \<in> settled g r pq"
  using assms by (simp add: settled_def queued_def)

lemma searchDone_lower:
  assumes G: "graphOk g" and D: "searchDone g s r"
  shows "isWalk g s es \<Longrightarrow> dAt r (walkEnd s es) \<le> walkWeight es"
proof (induction es rule: rev_induct)
  case Nil
  from D have "dAt r s = 0" by (auto simp: searchDone_def dijkstraInv_def shape_def)
  then show ?case by simp
next
  case (snoc e es)
  from D obtain pq where inv: "dijkstraInv g s r pq {}" and emp: "heap pq = []"
    by (auto simp: searchDone_def)
  have w: "isWalk g s es" and e: "e \<in> set (adjacencyList g ! nat (walkEnd s es))"
    using snoc.prems by (auto simp: isWalk_snoc[OF G])
  have ih: "dAt r (walkEnd s es) \<le> walkWeight es" by (rule snoc.IH[OF w])
  have endR: "inRange g (walkEnd s es)" by (rule isWalk_end[OF G w])
  show ?case
  proof (cases "dAt r (walkEnd s es) = PosInf")
    case True
    then have "walkWeight es = PosInf" using ih by simp
    then show ?thesis by simp
  next
    case False
    have "walkEnd s es \<in> settled g r pq" by (rule searchDone_settled[OF inv emp endR False])
    then have "dAt r (destination e) \<le> dAt r (walkEnd s es) + weight e"
      using inv e unfolding dijkstraInv_def relaxed_def by blast
    also have "\<dots> \<le> walkWeight es + weight e" using ih by (rule double_add_right_mono)
    finally show ?thesis by (simp add: walkEnd_append)
  qed
qed

lemma searchDone_achieved:
  assumes "searchDone g s r" "inRange g v" "dAt r v \<noteq> PosInf"
  shows "\<exists>es. isWalk g s es \<and> walkEnd s es = v \<and> walkWeight es = dAt r v"
  using assms unfolding searchDone_def dijkstraInv_def reached_def by blast

lemma searchDone_shape:
  assumes "searchDone g s r"
  shows "success r \<and> length (distances r) = nat (numVertices g)
       \<and> length (predecessors r) = nat (numVertices g) \<and> dAt r s = 0 \<and> inRange g s"
  using assms unfolding searchDone_def dijkstraInv_def shape_def by blast

lemma reconstructLoop_chain:
  "chain P s v k \<Longrightarrow> reconstructLoop s P v acc = Some (acc @ chainList P v k)"
proof (induction k arbitrary: v acc)
  case 0
  then show ?case by (subst reconstructLoop.simps) auto
next
  case (Suc k)
  then have v: "v \<noteq> s" "v \<noteq> - 1" and c: "chain P s (P ! nat v) k" by auto
  have "reconstructLoop s P v acc = reconstructLoop s P (P ! nat v) (acc @ [v])"
    using v by (subst reconstructLoop.simps) simp
  then show ?case using Suc.IH[OF c, of "acc @ [v]"] by simp
qed

lemma walkNodes_snoc: "walkNodes s (es @ [e]) = walkNodes s es @ [destination e]"
  by (simp add: walkNodes_def)

lemma chain_walk:
  assumes G: "graphOk g" and D: "searchDone g s r"
  shows "chain (predecessors r) s v k \<Longrightarrow> inRange g v \<Longrightarrow> dAt r v \<noteq> PosInf \<Longrightarrow>
         \<exists>es. isWalk g s es \<and> walkNodes s es = rev (chainList (predecessors r) v k)
              \<and> walkEnd s es = v \<and> walkWeight es = dAt r v"
proof (induction k arbitrary: v)
  case 0
  then have "v = s" by simp
  moreover have "dAt r s = 0" using searchDone_shape[OF D] by simp
  ultimately have "isWalk g s [] \<and> walkNodes s [] = rev (chainList (predecessors r) v 0)
              \<and> walkEnd s [] = v \<and> walkWeight [] = dAt r v"
    using 0 by (simp add: walkNodes_def)
  then show ?case by blast
next
  case (Suc k)
  from D obtain pq where inv: "dijkstraInv g s r pq {}" and emp: "heap pq = []"
    by (auto simp: searchDone_def)
  have vs: "v \<noteq> s" and c: "chain (predecessors r) s (pAt r v) k" using Suc.prems(1) by auto
  have po: "predOk g s r pq" using inv by (simp add: dijkstraInv_def)
  then obtain e where p: "pAt r v \<in> settled g r pq"
    and e: "e \<in> set (adjacencyList g ! nat (pAt r v))" "destination e = v"
      "dAt r v = dAt r (pAt r v) + weight e"
    using Suc.prems(2,3) vs unfolding predOk_def by blast
  have pR: "inRange g (pAt r v)" and pF: "dAt r (pAt r v) \<noteq> PosInf"
    using settled_inRange[OF p] by auto
  from Suc.IH[OF c pR pF] obtain es where es:
    "isWalk g s es" "walkNodes s es = rev (chainList (predecessors r) (pAt r v) k)"
    "walkEnd s es = pAt r v" "walkWeight es = dAt r (pAt r v)" by blast
  have "isWalk g s (es @ [e])" using es(1,3) e(1) by (simp add: isWalk_snoc[OF G])
  moreover have "walkNodes s (es @ [e]) = rev (chainList (predecessors r) v (Suc k))"
    using es(2) e(2) by (simp add: walkNodes_snoc)
  moreover have "walkEnd s (es @ [e]) = v" using e(2) by (simp add: walkEnd_append)
  moreover have "walkWeight (es @ [e]) = dAt r v"
    using es(4) e(3) by simp
  ultimately show ?case by blast
qed

lemma walkNodes_inRange:
  "graphOk g \<Longrightarrow> isWalk g u es \<Longrightarrow> x \<in> set (walkNodes u es) \<Longrightarrow> inRange g x"
proof (induction es arbitrary: u)
  case Nil
  then show ?case by (simp add: walkNodes_def)
next
  case (Cons e es)
  have eR: "inRange g (destination e)"
    using graphOk_edge[OF Cons.prems(1)] Cons.prems(2) by auto
  show ?case
    using Cons.prems Cons.IH[OF Cons.prems(1), of "destination e"] eR
    by (auto simp: walkNodes_def)
qed

lemma roadNamesAlong_ok:
  "(\<forall>x \<in> set p. inRange g x) \<Longrightarrow> \<exists>names. roadNamesAlong g p = Inr names"
proof (induction g p rule: roadNamesAlong.induct)
  case (1 g a b rest)
  have a: "getAdjacentNodes g a = Inr (adjacencyList g ! nat a)"
    using 1(2) by (simp add: getAdjacentNodes_inRange)
  from 1(1)[OF a] 1(2) obtain names where "roadNamesAlong g (b # rest) = Inr names" by auto
  then show ?case using a by simp
qed simp_all

section \<open>Shortest paths\<close>

lemma last_walkNodes: "last (walkNodes s es) = walkEnd s es"
  by (induction es arbitrary: s) (auto simp: walkNodes_def)

lemma hd_walkNodes: "hd (walkNodes s es) = s"
  by (simp add: walkNodes_def)

lemma findShortestPath_spec:
  assumes G: "graphOk g"
  shows "\<exists>res. findShortestPath g s d = Some (Inr res)
      \<and> (found res = (nodeExists g s \<and> nodeExists g d
            \<and> (\<exists>route. isWalk g s route \<and> walkEnd s route = d \<and> walkWeight route \<noteq> PosInf)))
      \<and> (found res \<longrightarrow>
            totalDistance res \<noteq> PosInf
            \<and> estimatedTime res = calculateETA (totalDistance res) 40
            \<and> (\<exists>es. isWalk g s es \<and> walkEnd s es = d \<and> path res = walkNodes s es
                     \<and> walkWeight es = totalDistance res)
            \<and> (\<forall>es. isWalk g s es \<and> walkEnd s es = d \<longrightarrow> totalDistance res \<le> walkWeight es))
      \<and> (\<not> found res \<longrightarrow> res = notFound)"
proof (cases "nodeExists g s \<and> nodeExists g d")
  case False
  then have "findShortestPath g s d = Some (Inr notFound)"
    by (auto simp: findShortestPath_def)
  then show ?thesis using False by (auto simp: notFound_def)
next
  case True
  then have s: "nodeExists g s" and d: "nodeExists g d" by auto
  obtain r where r: "findShortestPaths g s = Some r" and D: "searchDone g s r"
    using findShortestPaths_total[OF G s] by blast
  have su: "success r" using searchDone_shape[OF D] by simp
  have dR: "inRange g d" by (rule graphOk_node[OF G d])
  have low: "\<And>es. isWalk g s es \<Longrightarrow> walkEnd s es = d \<Longrightarrow> dAt r d \<le> walkWeight es"
    using searchDone_lower[OF G D] by blast
  show ?thesis
  proof (cases "dAt r d = PosInf")
    case inf: True
    then have "findShortestPath g s d = Some (Inr notFound)"
      using s d r su by (simp add: findShortestPath_def)
    moreover have "\<not> (\<exists>route. isWalk g s route \<and> walkEnd s route = d \<and> walkWeight route \<noteq> PosInf)"
      using low inf by fastforce
    ultimately show ?thesis by (simp add: notFound_def)
  next
    case fin: False
    from D obtain pq where inv: "dijkstraInv g s r pq {}" by (auto simp: searchDone_def)
    then obtain k where k: "chain (predecessors r) s d k"
      using dR fin unfolding dijkstraInv_def chained_def by blast
    have rp: "reconstructPath s d (predecessors r) = Some (rev (chainList (predecessors r) d k))"
      using reconstructLoop_chain[OF k, of "[]"] by (simp add: reconstructPath_def)
    obtain es where es: "isWalk g s es" "walkNodes s es = rev (chainList (predecessors r) d k)"
      "walkEnd s es = d" "walkWeight es = dAt r d"
      using chain_walk[OF G D k dR fin] by blast
    have "\<forall>x \<in> set (walkNodes s es). inRange g x"
      using walkNodes_inRange[OF G es(1)] by blast
    then obtain names where names: "roadNamesAlong g (walkNodes s es) = Inr names"
      using roadNamesAlong_ok by blast
    define res where "res = \<lparr>path = walkNodes s es, totalDistance = dAt r d,
        estimatedTime = calculateETA (dAt r d) 40, roadNames = names, found = True\<rparr>"
    have "findShortestPath g s d = Some (Inr res)"
      using s d r su fin rp names es(2) by (simp add: findShortestPath_def res_def)
    moreover have "found res" "totalDistance res = dAt r d" "path res = walkNodes s es"
      "estimatedTime res = calculateETA (totalDistance res) 40"
      by (simp_all add: res_def)
    moreover have "\<exists>route. isWalk g s route \<and> walkEnd s route = d \<and> walkWeight route \<noteq> PosInf"
      using es fin by auto
    ultimately show ?thesis using s d fin es low by auto
  qed
qed

text \<open>The equations that evaluate a search on a concrete graph.\<close>

lemmas search_eval = findShortestPath_def findShortestPaths_def reconstructPath_def
  nodeExists_def getNumVertices_def getAdjacentNodes_def notFound_def
  isEmpty_def heapInsert_def decreaseKey_def extractMin_def swap_def Let_def parent_def
  leftChild_def rightChild_def emptyHeap_def heapifyUp.simps heapifyDown.simps
  dijkstraLoop.simps reconstructLoop.simps zero_double_def

text \<open>The graph operations build well-formed graphs only.\<close>

lemma graphOk_newGraph: "newGraph n = Inr g \<Longrightarrow> graphOk g"
  by (auto simp: newGraph_def graphOk_def validate_def list_all_iff split: if_splits)

lemma validate_iff:
  "length (adjacencyList g) = nat (numVertices g) \<Longrightarrow>
   validate g = (\<forall>es \<in> set (adjacencyList g). \<forall>e \<in> set es.
                   0 \<le> destination e \<and> destination e < numVertices g \<and> 0 \<le> weight e)"
  by (fastforce simp: validate_def list_all_iff not_less not_le)

lemma graphOk_addNode:
  assumes "graphOk g" "addNode g i name lat lon = Inr g'"
  shows "graphOk g'"
proof -
  have c: "0 \<le> i" "i < numVertices g"
    and g': "g' = g\<lparr>nodes := (nodes g)(i \<mapsto>
                  \<lparr>nodeId = i, nodeName = name, latitude = lat, longitude = lon\<rparr>)\<rparr>"
    using assms(2) by (auto simp: addNode_def not_less split: if_splits)
  have "validate g' = validate g" by (simp add: g' validate_def)
  moreover have "dom (nodes g') \<subseteq> {0..<numVertices g'}"
    using assms(1) c by (auto simp: g' graphOk_def)
  ultimately show ?thesis using assms(1) by (simp add: graphOk_def g')
qed

lemma set_update_append:
  "i < length xs \<Longrightarrow> ys \<in> set (xs[i := xs ! i @ [e]]) \<Longrightarrow> a \<in> set ys \<Longrightarrow>
   a = e \<or> (\<exists>zs \<in> set xs. a \<in> set zs)"
proof -
  assume i: "i < length xs" and ys: "ys \<in> set (xs[i := xs ! i @ [e]])" and a: "a \<in> set ys"
  have "set (xs[i := xs ! i @ [e]]) \<subseteq> insert (xs ! i @ [e]) (set xs)"
    by (rule set_update_subset_insert)
  then have "ys = xs ! i @ [e] \<or> ys \<in> set xs" using ys by blast
  then show ?thesis
  proof
    assume "ys = xs ! i @ [e]"
    then have "a = e \<or> a \<in> set (xs ! i)" using a by auto
    moreover have "xs ! i \<in> set xs" using i by simp
    ultimately show ?thesis by blast
  next
    assume "ys \<in> set xs"
    then show ?thesis using a by blast
  qed
qed

lemma graphOk_addDirectedEdge:
  assumes "graphOk g" "addDirectedEdge g src dest w name = Inr g'"
  shows "graphOk g'"
proof -
  have c: "0 \<le> src" "src < numVertices g" "0 \<le> dest" "dest < numVertices g" "0 \<le> w"
    and g': "g' = g\<lparr>adjacencyList := (adjacencyList g)
                     [nat src := adjacencyList g ! nat src
                                 @ [\<lparr>destination = dest, weight = w, roadName = name\<rparr>]]\<rparr>"
    using assms(2) by (auto simp: addDirectedEdge_def not_less split: if_splits)
  have len: "length (adjacencyList g) = nat (numVertices g)"
    and v: "\<forall>es \<in> set (adjacencyList g). \<forall>e \<in> set es.
                   0 \<le> destination e \<and> destination e < numVertices g \<and> 0 \<le> weight e"
    using assms(1) validate_iff[of g] by (auto simp: graphOk_def)
  have s: "nat src < length (adjacencyList g)" using c len by auto
  have "\<forall>es \<in> set (adjacencyList g'). \<forall>e \<in> set es.
                   0 \<le> destination e \<and> destination e < numVertices g' \<and> 0 \<le> weight e"
  proof (intro ballI)
    fix es e assume "es \<in> set (adjacencyList g')" "e \<in> set es"
    then have "e = \<lparr>destination = dest, weight = w, roadName = name\<rparr>
               \<or> (\<exists>zs \<in> set (adjacencyList g). e \<in> set zs)"
      unfolding g' using set_update_append[OF s] by simp
    then show "0 \<le> destination e \<and> destination e < numVertices g' \<and> 0 \<le> weight e"
      using c v g' by auto
  qed
  moreover have "length (adjacencyList g') = nat (numVertices g')" using len g' by simp
  ultimately have "validate g'" using validate_iff[of g'] by simp
  then show ?thesis using assms(1) len g' by (simp add: graphOk_def)
qed

lemma graphOk_addEdge:
  assumes "graphOk g" "addEdge g src dest w name = Inr g'"
  shows "graphOk g'"
proof -
  have c: "0 \<le> src" "src < numVertices g" "0 \<le> dest" "dest < numVertices g" "0 \<le> w"
    using assms(2) by (auto simp: addEdge_def not_less split: if_splits)
  obtain g1 where g1: "addDirectedEdge g src dest w name = Inr g1"
    using c by (auto simp: addDirectedEdge_def not_less)
  have ok1: "graphOk g1" by (rule graphOk_addDirectedEdge[OF assms(1) g1])
  have n1: "numVertices g1 = numVertices g" using g1 by (auto simp: addDirectedEdge_def split: if_splits)
  have "addDirectedEdge g1 dest src w name = Inr g'"
    using assms(2) g1 c by (auto simp: addEdge_def addDirectedEdge_def Let_def not_less split: if_splits)
  then show ?thesis by (rule graphOk_addDirectedEdge[OF ok1])
qed

lemma graphOk_city4: "graphOk city4"
  by (simp add: graphOk_def validate_def city4_def zero_double_def)

section \<open>Sums without rounding\<close>

lemma representable_2p53: "representable 9007199254740992"
  using representable_exact[of 53 1] by simp

text \<open>The sums along a walk are \<open>double\<close>s, when no weight is negative.\<close>

lemma walkWeight_isDouble:
  "\<forall>e \<in> set es. 0 \<le> weight e \<Longrightarrow> 0 \<le> walkWeight es \<and> isDouble (walkWeight es)"
proof (induction es rule: rev_induct)
  case Nil
  show ?case by (simp add: zero_double_def)
next
  case (snoc e es)
  then have "0 \<le> walkWeight es" "0 \<le> weight e" by simp_all
  then show ?case by (simp add: double_add_nonneg isDouble_add)
qed

lemma isWhole_nonneg: "isWhole w \<Longrightarrow> 0 \<le> w"
  by (cases w) (simp_all add: zero_double_def)

text \<open>
  Whole weights are added without rounding as long as the sum stays below \<open>2 ^ 53\<close>, and
  a sum that has reached \<open>2 ^ 53\<close> stays there.
\<close>

lemma walkWeight_whole:
  "\<forall>e \<in> set es. isWhole (weight e) \<Longrightarrow>
     0 \<le> exactWeight es \<and> exactWeight es = of_int \<lfloor>exactWeight es\<rfloor>
   \<and> (exactWeight es < 9007199254740992 \<longrightarrow> walkWeight es = Fin (exactWeight es))
   \<and> (9007199254740992 \<le> exactWeight es \<longrightarrow> Fin 9007199254740992 \<le> walkWeight es)"
proof (induction es rule: rev_induct)
  case Nil
  show ?case by (simp add: exactWeight_def zero_double_def)
next
  case (snoc e es)
  have ih: "0 \<le> exactWeight es" "exactWeight es = of_int \<lfloor>exactWeight es\<rfloor>"
    "exactWeight es < 9007199254740992 \<longrightarrow> walkWeight es = Fin (exactWeight es)"
    "9007199254740992 \<le> exactWeight es \<longrightarrow> Fin 9007199254740992 \<le> walkWeight es"
    using snoc by simp_all
  from snoc.prems obtain x where x: "weight e = Fin x" "0 \<le> x" "x = of_int \<lfloor>x\<rfloor>"
    by (cases "weight e") auto
  define X where "X = exactWeight es"
  define k where "k = \<lfloor>X\<rfloor> + \<lfloor>x\<rfloor>"
  have ex: "exactWeight (es @ [e]) = X + x" by (simp add: exactWeight_def x(1) X_def)
  have ki: "X + x = of_int k" using ih(2) x(3) by (simp add: k_def X_def)
  have nn: "0 \<le> X + x" using ih(1) x(2) by (simp add: X_def)
  have w0: "\<forall>e \<in> set es. 0 \<le> weight e" using snoc.prems by (simp add: isWhole_nonneg)
  have c3: "X + x < 9007199254740992 \<longrightarrow> walkWeight (es @ [e]) = Fin (X + x)"
  proof
    assume lt: "X + x < 9007199254740992"
    then have "X < 9007199254740992" using x(2) by simp
    then have "walkWeight es = Fin X" using ih(3) by (simp add: X_def)
    moreover have "\<bar>k\<bar> < 2 ^ 53" using lt nn unfolding ki by simp
    then have "representable (of_int k)" by (rule representable_int)
    then have "toDouble (X + x) = Fin (X + x)" unfolding ki by (rule toDouble_representable)
    ultimately show "walkWeight (es @ [e]) = Fin (X + x)" by (simp add: x(1))
  qed
  have c4: "9007199254740992 \<le> X + x \<longrightarrow> Fin 9007199254740992 \<le> walkWeight (es @ [e])"
  proof
    assume ge: "9007199254740992 \<le> X + x"
    show "Fin 9007199254740992 \<le> walkWeight (es @ [e])"
    proof (cases "X < 9007199254740992")
      case True
      then have "walkWeight es = Fin X" using ih(3) by (simp add: X_def)
      then have "walkWeight (es @ [e]) = toDouble (X + x)" by (simp add: x(1))
      moreover have "toDouble 9007199254740992 \<le> toDouble (X + x)"
        using ge by (rule toDouble_mono)
      moreover have "toDouble 9007199254740992 = Fin 9007199254740992"
        using representable_2p53 by (rule toDouble_representable)
      ultimately show ?thesis by simp
    next
      case False
      then have "Fin 9007199254740992 \<le> walkWeight es" using ih(4) by (simp add: X_def)
      also have "\<dots> \<le> walkWeight es + weight e"
        using walkWeight_isDouble[OF w0] x(1,2)
        by (intro double_le_add) (simp_all add: zero_double_def)
      finally show ?thesis by simp
    qed
  qed
  have "X + x = of_int \<lfloor>X + x\<rfloor>" unfolding ki by simp
  then show ?case using nn c3 c4 unfolding ex by blast
qed

lemma isWalk_edges:
  assumes G: "graphOk g"
  shows "isWalk g u es \<Longrightarrow> e \<in> set es \<Longrightarrow> \<exists>xs \<in> set (adjacencyList g). e \<in> set xs"
proof (induction es arbitrary: u)
  case Nil
  then show ?case by simp
next
  case (Cons a es)
  have uR: "inRange g u" and a: "a \<in> set (adjacencyList g ! nat u)"
    and w: "isWalk g (destination a) es" using Cons.prems(1) by auto
  have "nat u < length (adjacencyList g)" using G uR by (auto simp: graphOk_def inRange_def)
  then have "adjacencyList g ! nat u \<in> set (adjacencyList g)" by simp
  then show ?case using Cons.IH[OF w] Cons.prems(2) a by auto
qed

text \<open>With whole weights, a distance below \<open>2 ^ 53\<close> is the exact length of a shortest walk.\<close>

lemma searchDone_exact:
  assumes G: "graphOk g" and W: "wholeWeights g" and D: "searchDone g s r"
    and v: "inRange g v" and lt: "dAt r v < Fin 9007199254740992"
  shows "(\<exists>es. isWalk g s es \<and> walkEnd s es = v \<and> dAt r v = Fin (exactWeight es))
       \<and> (\<forall>es. isWalk g s es \<and> walkEnd s es = v \<longrightarrow> dAt r v \<le> Fin (exactWeight es))"
proof -
  have whole: "\<And>es. isWalk g s es \<Longrightarrow> \<forall>e \<in> set es. isWhole (weight e)"
    using isWalk_edges[OF G] W unfolding wholeWeights_def by blast
  have fin: "dAt r v \<noteq> PosInf" using lt by auto
  obtain es where es: "isWalk g s es" "walkEnd s es = v" "walkWeight es = dAt r v"
    using searchDone_achieved[OF D v fin] by blast
  have "\<not> 9007199254740992 \<le> exactWeight es"
  proof
    assume "9007199254740992 \<le> exactWeight es"
    then have "Fin 9007199254740992 \<le> walkWeight es"
      using walkWeight_whole[OF whole[OF es(1)]] by blast
    then show False using lt es(3) by simp
  qed
  then have "walkWeight es = Fin (exactWeight es)"
    using walkWeight_whole[OF whole[OF es(1)]] by simp
  then have a: "\<exists>es. isWalk g s es \<and> walkEnd s es = v \<and> dAt r v = Fin (exactWeight es)"
    using es by metis
  have b: "\<forall>es. isWalk g s es \<and> walkEnd s es = v \<longrightarrow> dAt r v \<le> Fin (exactWeight es)"
  proof (intro allI impI)
    fix fs assume fs: "isWalk g s fs \<and> walkEnd s fs = v"
    have low: "dAt r v \<le> walkWeight fs" using searchDone_lower[OF G D, of fs] fs by simp
    show "dAt r v \<le> Fin (exactWeight fs)"
    proof (cases "exactWeight fs < 9007199254740992")
      case True
      then have "walkWeight fs = Fin (exactWeight fs)"
        using walkWeight_whole[OF whole, of fs] fs by simp
      then show ?thesis using low by simp
    next
      case False
      then have "Fin 9007199254740992 \<le> Fin (exactWeight fs)" by simp
      then show ?thesis using lt by (meson less_le_trans less_imp_le)
    qed
  qed
  show ?thesis using a b by blast
qed

section \<open>The scenarios of the search\<close>

text \<open>Rounding between \<open>2 ^ 53\<close> and \<open>2 ^ 54\<close>: to the nearest even number.\<close>

lemma expo_binade53:
  assumes "9007199254740992 \<le> x" "x < 18014398509481984"
  shows "expo x = 1"
proof (rule expo_eqI)
  show "(1::int) = 971 \<or> \<bar>x\<bar> < 2 powi (1 + 53)" using assms by simp
  show "(1::int) = - 1074 \<or> 2 powi (1 + 52) \<le> \<bar>x\<bar>" using assms by simp
qed simp_all

lemma toDouble_binade53:
  assumes "9007199254740992 \<le> x" "x < 18014398509481984"
  shows "toDouble x = Fin (2 * of_int (nearestEven (x / 2)))"
proof -
  have r: "rnd x = 2 * of_int (nearestEven (x / 2))"
    by (simp add: rnd_def expo_binade53[OF assms])
  have "x / 2 \<le> of_int 9007199254740992" using assms by simp
  then have "nearestEven (x / 2) \<le> 9007199254740992" by (rule nearestEven_le)
  then have "real_of_int (nearestEven (x / 2)) \<le> 9007199254740992" by linarith
  then have "rnd x \<le> 18014398509481984" unfolding r by simp
  moreover have "(18014398509481984::real) < 2 ^ 1024" by simp
  ultimately have "\<not> 2 ^ 1024 \<le> rnd x" by linarith
  then show ?thesis by (simp add: toDouble_def r)
qed

lemma far_sums:
  "toDouble 10000000000000000 = Fin 10000000000000000"
  "toDouble 10000000000000001 = Fin 10000000000000000"
  "toDouble 10000000000000002 = Fin 10000000000000002"
  "toDouble 10000000000000003 = Fin 10000000000000004"
  "toDouble 10000000000000004 = Fin 10000000000000004"
  by (simp_all add: toDouble_binade53 nearestEven_def Let_def)

text \<open>
  The estimated times of the scenarios: the quotients by 40, rounded, and their products
  with 60, rounded.
\<close>

lemma quotients:
  "toDouble (1 / 40) = Fin (7205759403792794 / 288230376151711744)"
  "toDouble (3 / 40) = Fin (5404319552844595 / 72057594037927936)"
  "toDouble (1 / 10) = Fin (7205759403792794 / 72057594037927936)"
  "toDouble (1 / 8) = Fin (1 / 8)"
  "toDouble 250000000000000 = Fin 250000000000000"
  "toDouble (10000000000000002 / 40) = Fin (8000000000000002 / 32)"
  "toDouble (10000000000000004 / 40) = Fin (8000000000000003 / 32)"
proof -
  show "toDouble (1 / 40) = Fin (7205759403792794 / 288230376151711744)"
    using toDouble_at[of "- 58" "1 / 40"] by (simp add: nearestEven_def Let_def)
  show "toDouble (3 / 40) = Fin (5404319552844595 / 72057594037927936)"
    using toDouble_at[of "- 56" "3 / 40"] by (simp add: nearestEven_def Let_def)
  show "toDouble (1 / 10) = Fin (7205759403792794 / 72057594037927936)"
    using toDouble_at[of "- 56" "1 / 10"] by (simp add: nearestEven_def Let_def)
  show "toDouble (1 / 8) = Fin (1 / 8)"
    using representable_exact[of "- 3" 1] by (simp add: toDouble_representable)
  show "toDouble 250000000000000 = Fin 250000000000000"
    using representable_int[of 250000000000000] by (simp add: toDouble_representable)
  show "toDouble (10000000000000002 / 40) = Fin (8000000000000002 / 32)"
    using toDouble_at[of "- 5" "10000000000000002 / 40"] by (simp add: nearestEven_def Let_def)
  show "toDouble (10000000000000004 / 40) = Fin (8000000000000003 / 32)"
    using toDouble_at[of "- 5" "10000000000000004 / 40"] by (simp add: nearestEven_def Let_def)
qed

lemma products:
  "toDouble (7205759403792794 / 288230376151711744 * 60) = Fin (3 / 2)"
  "toDouble (5404319552844595 / 72057594037927936 * 60) = Fin (9 / 2)"
  "toDouble (7205759403792794 / 72057594037927936 * 60) = Fin 6"
  "toDouble (1 / 8 * 60) = Fin (15 / 2)"
  "toDouble (250000000000000 * 60) = Fin 15000000000000000"
  "toDouble (8000000000000002 / 32 * 60) = Fin 15000000000000004"
  "toDouble (8000000000000003 / 32 * 60) = Fin 15000000000000006"
proof -
  show "toDouble (7205759403792794 / 288230376151711744 * 60) = Fin (3 / 2)"
    using toDouble_at[of "- 52" "7205759403792794 / 288230376151711744 * 60"]
    by (simp add: nearestEven_def Let_def)
  show "toDouble (5404319552844595 / 72057594037927936 * 60) = Fin (9 / 2)"
    using toDouble_at[of "- 50" "5404319552844595 / 72057594037927936 * 60"]
    by (simp add: nearestEven_def Let_def)
  show "toDouble (7205759403792794 / 72057594037927936 * 60) = Fin 6"
    using toDouble_at[of "- 50" "7205759403792794 / 72057594037927936 * 60"]
    by (simp add: nearestEven_def Let_def)
  show "toDouble (1 / 8 * 60) = Fin (15 / 2)"
    using representable_exact[of "- 1" 15] by (simp add: toDouble_representable)
  show "toDouble (250000000000000 * 60) = Fin 15000000000000000"
    by (simp add: toDouble_binade53 nearestEven_def Let_def)
  show "toDouble (8000000000000002 / 32 * 60) = Fin 15000000000000004"
    by (simp add: toDouble_binade53 nearestEven_def Let_def)
  show "toDouble (8000000000000003 / 32 * 60) = Fin 15000000000000006"
    by (simp add: toDouble_binade53 nearestEven_def Let_def)
qed

lemma eta_values:
  "calculateETA (Fin 0) 40 = Fin 0"
  "calculateETA (Fin 1) 40 = Fin (3 / 2)"
  "calculateETA (Fin 3) 40 = Fin (9 / 2)"
  "calculateETA (Fin 4) 40 = Fin 6"
  "calculateETA (Fin 5) 40 = Fin (15 / 2)"
  "calculateETA (Fin 10000000000000000) 40 = Fin 15000000000000000"
  "calculateETA (Fin 10000000000000002) 40 = Fin 15000000000000004"
  "calculateETA (Fin 10000000000000004) 40 = Fin 15000000000000006"
  using quotients products by (simp_all add: calculateETA_def)

text \<open>The searches of the scenarios, evaluated.\<close>

lemma farRoads_search:
  "findShortestPaths farRoads 0 =
     Some \<lparr>distances = [Fin 0, Fin 3, Fin 10000000000000004], predecessors = [- 1, 0, 0],
           success = True, errorMessage = []\<rparr>"
  by (simp add: farRoads_def edgeTo_def placeAt_def search_eval far_sums eval_nat_numeral)

lemma longRoad_route:
  "findShortestPath longRoad 0 3 =
     Some (Inr \<lparr>path = [0, 1, 2, 3], totalDistance = Fin 10000000000000000,
                estimatedTime = Fin 15000000000000000,
                roadNames = [[], [], []], found = True\<rparr>)"
  by (simp add: longRoad_def edgeTo_def placeAt_def search_eval far_sums eta_values
      eval_nat_numeral)

lemma city4_route:
  "findShortestPath city4 0 3 =
     Some (Inr \<lparr>path = [0, 1, 2, 3], totalDistance = Fin 5,
                estimatedTime = Fin (15 / 2),
                roadNames = [[], [], []], found = True\<rparr>)"
  by (simp add: city4_def search_eval eta_values)

lemma city4_search:
  "findShortestPaths city4 0 =
       Some \<lparr>distances = [Fin 0, Fin 2, Fin 4, Fin 5], predecessors = [- 1, 0, 1, 2],
             success = True, errorMessage = []\<rparr>"
  by (simp add: city4_def search_eval eval_nat_numeral)

section \<open>Shortest paths: the claims\<close>

lemma graphOk_scenarios: "graphOk farRoads" "graphOk longRoad"
  by (simp_all add: graphOk_def validate_def farRoads_def longRoad_def edgeTo_def placeAt_def
      zero_double_def)

text \<open>The graphs of the scenarios are built by the graph operations.\<close>

lemma farRoads_built:
  "Inr farRoads =
     (case newGraph 3 of Inl e \<Rightarrow> Inl e | Inr g0 \<Rightarrow>
      case addNode g0 0 [] 0 0 of Inl e \<Rightarrow> Inl e | Inr g1 \<Rightarrow>
      case addNode g1 1 [] 0 0 of Inl e \<Rightarrow> Inl e | Inr g2 \<Rightarrow>
      case addNode g2 2 [] 0 0 of Inl e \<Rightarrow> Inl e | Inr g3 \<Rightarrow>
      case addDirectedEdge g3 0 2 (Fin 10000000000000004) [] of Inl e \<Rightarrow> Inl e | Inr g4 \<Rightarrow>
      case addDirectedEdge g4 0 1 (Fin 3) [] of Inl e \<Rightarrow> Inl e | Inr g5 \<Rightarrow>
      addDirectedEdge g5 1 2 (Fin 10000000000000000) [])"
  by (simp add: farRoads_def edgeTo_def placeAt_def newGraph_def addNode_def addDirectedEdge_def
      Let_def zero_double_def eval_nat_numeral)

lemma longRoad_built:
  "Inr longRoad =
     (case newGraph 4 of Inl e \<Rightarrow> Inl e | Inr g0 \<Rightarrow>
      case addNode g0 0 [] 0 0 of Inl e \<Rightarrow> Inl e | Inr g1 \<Rightarrow>
      case addNode g1 1 [] 0 0 of Inl e \<Rightarrow> Inl e | Inr g2 \<Rightarrow>
      case addNode g2 2 [] 0 0 of Inl e \<Rightarrow> Inl e | Inr g3 \<Rightarrow>
      case addNode g3 3 [] 0 0 of Inl e \<Rightarrow> Inl e | Inr g4 \<Rightarrow>
      case addDirectedEdge g4 0 1 (Fin 10000000000000000) [] of Inl e \<Rightarrow> Inl e | Inr g5 \<Rightarrow>
      case addDirectedEdge g5 1 2 (Fin 1) [] of Inl e \<Rightarrow> Inl e | Inr g6 \<Rightarrow>
      addDirectedEdge g6 2 3 (Fin 1) [])"
  by (simp add: longRoad_def edgeTo_def placeAt_def newGraph_def addNode_def addDirectedEdge_def
      Let_def zero_double_def eval_nat_numeral)

text \<open>The weights of the scenarios are \<open>double\<close>s.\<close>

lemma scenario_weights_are_doubles:
  "isDouble (Fin 10000000000000004)" "isDouble (Fin 10000000000000000)"
  "isDouble (Fin 10000000000000002)" "isDouble (Fin 3)" "isDouble (Fin 1)"
proof -
  show "isDouble (Fin 10000000000000004)" "isDouble (Fin 10000000000000000)"
    "isDouble (Fin 10000000000000002)"
    using far_sums(1,3,5) by (simp_all add: representable_def toDouble_def split: if_splits)
  show "isDouble (Fin 3)" "isDouble (Fin 1)" by simp_all
qed

text \<open>
  Claim C1, as the code has it. On a well-formed graph (such are the graphs that the graph
  operations build) and for a source that is a registered location, \<open>findShortestPaths\<close>
  returns, with success, one distance per vertex: 0 for the source and, for every vertex,
  the least weight of a walk from the source to it, where the weight of a walk is the sum
  that the search computes, the edge weights added in \<open>double\<close> arithmetic in the order of
  the walk. The distance is infinity when every walk to the vertex has infinite weight, as
  when there is none. If all weights are whole numbers, every distance below \<open>2 ^ 53\<close> is
  the exact length of a shortest walk. On the graph of the scenario
  \<open>findShortestPath(0, 3)\<close> returns the path \<open>0, 1, 2, 3\<close> with total distance 5.
\<close>

theorem C1_shortest_distances:
  assumes "graphOk g" and "nodeExists g source"
  shows "(\<exists>r. findShortestPaths g source = Some r \<and> success r
           \<and> length (distances r) = nat (numVertices g)
           \<and> dAt r source = Fin 0
           \<and> (\<forall>v es. isWalk g source es \<and> walkEnd source es = v \<longrightarrow> dAt r v \<le> walkWeight es)
           \<and> (\<forall>v. inRange g v \<and> dAt r v \<noteq> PosInf \<longrightarrow>
                 (\<exists>es. isWalk g source es \<and> walkEnd source es = v \<and> walkWeight es = dAt r v))
           \<and> (\<forall>v. inRange g v
                   \<and> (\<forall>es. isWalk g source es \<and> walkEnd source es = v \<longrightarrow> walkWeight es = PosInf)
                 \<longrightarrow> dAt r v = PosInf)
           \<and> (wholeWeights g \<longrightarrow>
                 (\<forall>v. inRange g v \<and> dAt r v < Fin 9007199254740992 \<longrightarrow>
                    (\<exists>es. isWalk g source es \<and> walkEnd source es = v
                          \<and> dAt r v = Fin (exactWeight es))
                    \<and> (\<forall>es. isWalk g source es \<and> walkEnd source es = v \<longrightarrow>
                          dAt r v \<le> Fin (exactWeight es)))))
       \<and> findShortestPath city4 0 3 =
           Some (Inr \<lparr>path = [0, 1, 2, 3], totalDistance = Fin 5,
                      estimatedTime = Fin (15 / 2),
                      roadNames = [[], [], []], found = True\<rparr>)"
proof -
  obtain r where r: "findShortestPaths g source = Some r" and D: "searchDone g source r"
    using findShortestPaths_total[OF assms] by blast
  have sh: "success r" "length (distances r) = nat (numVertices g)" "dAt r source = Fin 0"
    using searchDone_shape[OF D] by (simp_all add: zero_double_def)
  have low: "\<forall>v es. isWalk g source es \<and> walkEnd source es = v \<longrightarrow> dAt r v \<le> walkWeight es"
    using searchDone_lower[OF assms(1) D] by blast
  have ach: "\<forall>v. inRange g v \<and> dAt r v \<noteq> PosInf \<longrightarrow>
                 (\<exists>es. isWalk g source es \<and> walkEnd source es = v \<and> walkWeight es = dAt r v)"
    using searchDone_achieved[OF D] by blast
  then have unr: "\<forall>v. inRange g v
                   \<and> (\<forall>es. isWalk g source es \<and> walkEnd source es = v \<longrightarrow> walkWeight es = PosInf)
                 \<longrightarrow> dAt r v = PosInf"
    by metis
  have whole: "wholeWeights g \<longrightarrow>
                 (\<forall>v. inRange g v \<and> dAt r v < Fin 9007199254740992 \<longrightarrow>
                    (\<exists>es. isWalk g source es \<and> walkEnd source es = v
                          \<and> dAt r v = Fin (exactWeight es))
                    \<and> (\<forall>es. isWalk g source es \<and> walkEnd source es = v \<longrightarrow>
                          dAt r v \<le> Fin (exactWeight es)))"
    using searchDone_exact[OF assms(1) _ D] by blast
  show ?thesis using r sh low ach unr whole city4_route by blast
qed

text \<open>
  On \<open>farRoads\<close> the search from 0 returns \<open>10\<^sup>1\<^sup>6 + 4\<close> for location 2, the weight of the
  road from 0 to 2. The walk by way of 1 has the exact length \<open>10\<^sup>1\<^sup>6 + 3\<close>, which is less:
  its sum is rounded to \<open>10\<^sup>1\<^sup>6 + 4\<close>, and the search keeps the road it found first.
\<close>

theorem C1_counterexample:
  "graphOk farRoads \<and> nodeExists farRoads 0
   \<and> findShortestPaths farRoads 0 =
       Some \<lparr>distances = [Fin 0, Fin 3, Fin 10000000000000004], predecessors = [- 1, 0, 0],
             success = True, errorMessage = []\<rparr>
   \<and> isWalk farRoads 0 [edgeTo 1 (Fin 3), edgeTo 2 (Fin 10000000000000000)]
   \<and> walkEnd 0 [edgeTo 1 (Fin 3), edgeTo 2 (Fin 10000000000000000)] = 2
   \<and> exactWeight [edgeTo 1 (Fin 3), edgeTo 2 (Fin 10000000000000000)] = 10000000000000003
   \<and> isDouble (Fin 3) \<and> isDouble (Fin 10000000000000000) \<and> isDouble (Fin 10000000000000004)"
  using graphOk_scenarios(1) farRoads_search scenario_weights_are_doubles
  by (simp add: nodeExists_def farRoads_def edgeTo_def placeAt_def inRange_def exactWeight_def)

text \<open>
  Claim C1 on the graph of the scenario, from location 0: the weights are whole numbers
  and the distances are the exact lengths.
\<close>

theorem C1_witness:
  "graphOk city4 \<and> nodeExists city4 0 \<and> wholeWeights city4
   \<and> findShortestPaths city4 0 =
       Some \<lparr>distances = [Fin 0, Fin 2, Fin 4, Fin 5], predecessors = [- 1, 0, 1, 2],
             success = True, errorMessage = []\<rparr>
   \<and> (\<exists>r. findShortestPaths city4 0 = Some r \<and> success r
           \<and> (\<forall>v es. isWalk city4 0 es \<and> walkEnd 0 es = v \<longrightarrow> dAt r v \<le> walkWeight es)
           \<and> (\<forall>v. inRange city4 v \<and> dAt r v \<noteq> PosInf \<longrightarrow>
                 (\<exists>es. isWalk city4 0 es \<and> walkEnd 0 es = v \<and> walkWeight es = dAt r v)))"
proof -
  have g: "graphOk city4" by (rule graphOk_city4)
  have n: "nodeExists city4 0" by (simp add: nodeExists_def city4_def)
  have w: "wholeWeights city4" by (simp add: wholeWeights_def city4_def)
  show ?thesis using C1_shortest_distances[OF g n] g n w city4_search by blast
qed

text \<open>
  Claim C5, as the code has it. On a well-formed graph \<open>findShortestPath\<close> always returns.
  It finds a path exactly for a reachable pair: source and destination are registered
  locations and a walk of finite weight leads from the one to the other. The path found
  starts at the source and ends at the destination, and it is the node sequence of a walk
  of the graph, so that consecutive nodes are joined by edges; the total distance reported
  is the sum of the weights of these edges as the search computes it, added in \<open>double\<close>
  arithmetic from the source on.
\<close>

theorem C5_path_round_trip:
  assumes "graphOk g"
  shows "\<exists>res. findShortestPath g source dest = Some (Inr res)
      \<and> (found res = (nodeExists g source \<and> nodeExists g dest
            \<and> (\<exists>route. isWalk g source route \<and> walkEnd source route = dest
                         \<and> walkWeight route \<noteq> PosInf)))
      \<and> (found res \<longrightarrow>
            hd (path res) = source \<and> last (path res) = dest
            \<and> (\<exists>es. isWalk g source es \<and> path res = walkNodes source es
                     \<and> walkWeight es = totalDistance res))"
proof -
  obtain res where res: "findShortestPath g source dest = Some (Inr res)"
    and f: "found res = (nodeExists g source \<and> nodeExists g dest
            \<and> (\<exists>route. isWalk g source route \<and> walkEnd source route = dest
                         \<and> walkWeight route \<noteq> PosInf))"
    and p: "found res \<longrightarrow>
            (\<exists>es. isWalk g source es \<and> walkEnd source es = dest \<and> path res = walkNodes source es
                     \<and> walkWeight es = totalDistance res)"
    using findShortestPath_spec[OF assms, of source dest] by blast
  have "found res \<longrightarrow>
            hd (path res) = source \<and> last (path res) = dest
            \<and> (\<exists>es. isWalk g source es \<and> path res = walkNodes source es
                     \<and> walkWeight es = totalDistance res)"
  proof
    assume "found res"
    then obtain es where es: "isWalk g source es" "walkEnd source es = dest"
      "path res = walkNodes source es" "walkWeight es = totalDistance res"
      using p by blast
    then show "hd (path res) = source \<and> last (path res) = dest
            \<and> (\<exists>es. isWalk g source es \<and> path res = walkNodes source es
                     \<and> walkWeight es = totalDistance res)"
      using hd_walkNodes[of source es] last_walkNodes[of source es] by auto
  qed
  then show ?thesis using res f by blast
qed

text \<open>The walks of \<open>longRoad\<close> along \<open>0, 1, 2, 3\<close>: there is one.\<close>

lemma longRoad_walk:
  assumes w: "isWalk longRoad 0 es" and n: "walkNodes 0 es = [0, 1, 2, 3]"
  shows "es = [edgeTo 1 (Fin 10000000000000000), edgeTo 2 (Fin 1), edgeTo 3 (Fin 1)]"
proof -
  from n obtain a b c where es: "es = [a, b, c]"
    and d: "destination a = 1" "destination b = 2" "destination c = 3"
    by (auto simp: walkNodes_def map_eq_Cons_conv)
  have "a \<in> set (adjacencyList longRoad ! nat 0)"
    "b \<in> set (adjacencyList longRoad ! nat 1)" "c \<in> set (adjacencyList longRoad ! nat 2)"
    using w d unfolding es by simp_all
  then show ?thesis unfolding es by (simp add: longRoad_def)
qed

text \<open>
  On \<open>longRoad\<close> the path from 0 to 3 is \<open>0, 1, 2, 3\<close> and the total distance reported is
  \<open>10\<^sup>1\<^sup>6\<close>: each of the two sums \<open>10\<^sup>1\<^sup>6 + 1\<close> is rounded to \<open>10\<^sup>1\<^sup>6\<close>. The weights of the
  edges that join the nodes of the path sum to \<open>10\<^sup>1\<^sup>6 + 2\<close>.
\<close>

theorem C5_counterexample:
  "graphOk longRoad \<and> nodeExists longRoad 0 \<and> nodeExists longRoad 3
   \<and> findShortestPath longRoad 0 3 =
       Some (Inr \<lparr>path = [0, 1, 2, 3], totalDistance = Fin 10000000000000000,
                  estimatedTime = Fin 15000000000000000,
                  roadNames = [[], [], []], found = True\<rparr>)
   \<and> isWalk longRoad 0 [edgeTo 1 (Fin 10000000000000000), edgeTo 2 (Fin 1), edgeTo 3 (Fin 1)]
   \<and> walkNodes 0 [edgeTo 1 (Fin 10000000000000000), edgeTo 2 (Fin 1), edgeTo 3 (Fin 1)]
       = [0, 1, 2, 3]
   \<and> exactWeight [edgeTo 1 (Fin 10000000000000000), edgeTo 2 (Fin 1), edgeTo 3 (Fin 1)]
       = 10000000000000002
   \<and> \<not> (\<exists>es. isWalk longRoad 0 es \<and> walkNodes 0 es = [0, 1, 2, 3]
             \<and> exactWeight es = 10000000000000000)
   \<and> isDouble (Fin 10000000000000000) \<and> isDouble (Fin 1)"
proof -
  have "\<not> (\<exists>es. isWalk longRoad 0 es \<and> walkNodes 0 es = [0, 1, 2, 3]
             \<and> exactWeight es = 10000000000000000)"
  proof
    assume "\<exists>es. isWalk longRoad 0 es \<and> walkNodes 0 es = [0, 1, 2, 3]
             \<and> exactWeight es = 10000000000000000"
    then obtain es where es: "isWalk longRoad 0 es" "walkNodes 0 es = [0, 1, 2, 3]"
      "exactWeight es = 10000000000000000" by blast
    show False using es(3) unfolding longRoad_walk[OF es(1,2)]
      by (simp add: exactWeight_def edgeTo_def)
  qed
  then show ?thesis
    using graphOk_scenarios(2) longRoad_route scenario_weights_are_doubles
    by (simp add: nodeExists_def longRoad_def edgeTo_def placeAt_def inRange_def exactWeight_def
        walkNodes_def)
qed

text \<open>Claim C5 on the graph of the scenario, from 0 to 3.\<close>

theorem C5_witness:
  "graphOk city4 \<and> nodeExists city4 0 \<and> nodeExists city4 3
   \<and> (\<exists>res. findShortestPath city4 0 3 = Some (Inr res) \<and> found res
          \<and> path res = [0, 1, 2, 3] \<and> totalDistance res = Fin 5
          \<and> hd (path res) = 0 \<and> last (path res) = 3
          \<and> (\<exists>es. isWalk city4 0 es \<and> path res = walkNodes 0 es
                   \<and> walkWeight es = totalDistance res))"
proof -
  have g: "graphOk city4" by (rule graphOk_city4)
  have n: "nodeExists city4 0" "nodeExists city4 3" by (simp_all add: nodeExists_def city4_def)
  show ?thesis using C5_path_round_trip[OF g, of 0 3] g n unfolding city4_route by simp
qed

section \<open>The demand window and its statistics\<close>

lemma evictOldest_eq: "evictOldest w = drop (length w - SLIDING_WINDOW_SIZE) w"
proof (induction w rule: evictOldest.induct)
  case (1 w)
  show ?case
  proof (cases "length w > SLIDING_WINDOW_SIZE")
    case True
    then have "evictOldest w = evictOldest (tl w)" by (subst evictOldest.simps) simp
    also have "\<dots> = drop (length (tl w) - SLIDING_WINDOW_SIZE) (tl w)" using 1 True by simp
    also have "\<dots> = drop (length w - SLIDING_WINDOW_SIZE) w"
      using True by (cases w) (auto simp: Suc_diff_le drop_Cons')
    finally show ?thesis .
  next
    case False
    then show ?thesis by (subst evictOldest.simps) simp
  qed
qed

lemma recent_addRideRequest:
  "recentRequests (addRideRequest rm r) =
   drop (length (recentRequests rm @ [r]) - SLIDING_WINDOW_SIZE) (recentRequests rm @ [r])"
  by (simp add: addRideRequest_def updateSlidingWindow_def logOperation_def Let_def evictOldest_eq)

lemma drop_as_take: "drop (length w - n) w = rev (take n (rev w))"
  by (simp add: rev_take)

lemma recent_enqueueAll:
  "length (recentRequests rm) \<le> SLIDING_WINDOW_SIZE \<Longrightarrow>
   recentRequests (enqueueAll rm rs) =
   drop (length (recentRequests rm @ rs) - SLIDING_WINDOW_SIZE) (recentRequests rm @ rs)"
proof (induction rs arbitrary: rm)
  case Nil
  then show ?case by simp
next
  case (Cons r rs)
  have len: "length (recentRequests (addRideRequest rm r)) \<le> SLIDING_WINDOW_SIZE"
    by (simp add: recent_addRideRequest)
  show ?case
    unfolding enqueueAll.simps Cons.IH[OF len] recent_addRideRequest drop_as_take
    by (simp add: take_append min_def)
qed

text \<open>
  Claim C6. From a window of at most 20 requests (the matcher starts with an empty one),
  enqueuing any sequence of requests leaves a window of at most 20 entries: it holds the
  most recent 20 of the old window followed by the new requests, in arrival order, so
  the oldest entries are the ones evicted. After 25 requests enqueued on an empty window
  \<open>analyzeDemand\<close> reports \<open>totalRequests = 20\<close> and the window holds the last 20 of
  them.
\<close>

theorem C6_sliding_window:
  assumes "length (recentRequests rm) \<le> SLIDING_WINDOW_SIZE"
  shows "length (recentRequests (enqueueAll rm rs)) \<le> 20
       \<and> recentRequests (enqueueAll rm rs)
           = drop (length (recentRequests rm @ rs) - 20) (recentRequests rm @ rs)
       \<and> (recentRequests rm = [] \<and> length rs = 25 \<longrightarrow>
            totalRequests (analyzeDemand L (enqueueAll rm rs)) = 20
            \<and> recentRequests (enqueueAll rm rs) = drop 5 rs)"
proof -
  have eq: "recentRequests (enqueueAll rm rs)
           = drop (length (recentRequests rm @ rs) - 20) (recentRequests rm @ rs)"
    using recent_enqueueAll[OF assms, of rs] by (simp add: SLIDING_WINDOW_SIZE_def)
  have len: "length (recentRequests (enqueueAll rm rs)) \<le> 20"
    unfolding eq by simp
  have "totalRequests (analyzeDemand L (enqueueAll rm rs))
          = int (length (recentRequests (enqueueAll rm rs)))"
    by (simp add: analyzeDemand_def Let_def emptyDemandStats_def)
  then show ?thesis using eq len by auto
qed

text \<open>Claim C6 for 25 requests on a new matcher.\<close>

theorem C6_witness:
  "length (recentRequests (newRideMatcher city4)) \<le> SLIDING_WINDOW_SIZE
   \<and> recentRequests (newRideMatcher city4) = []
   \<and> length (map request [0..<25]) = 25
   \<and> totalRequests (analyzeDemand listLib (enqueueAll (newRideMatcher city4) (map request [0..<25]))) = 20
   \<and> recentRequests (enqueueAll (newRideMatcher city4) (map request [0..<25]))
       = map request [5..<25]"
  using C6_sliding_window[of "newRideMatcher city4" "map request [0..<25]" listLib]
  by (simp add: newRideMatcher_def SLIDING_WINDOW_SIZE_def drop_map)

text \<open>The scenario graph is the one the graph operations build.\<close>

lemma city4_built:
  "Inr city4 =
     (case newGraph 4 of Inl e \<Rightarrow> Inl e | Inr g0 \<Rightarrow>
      case addNode g0 0 ''A'' 0 0 of Inl e \<Rightarrow> Inl e | Inr g1 \<Rightarrow>
      case addNode g1 1 ''B'' 0 0 of Inl e \<Rightarrow> Inl e | Inr g2 \<Rightarrow>
      case addNode g2 2 ''C'' 0 0 of Inl e \<Rightarrow> Inl e | Inr g3 \<Rightarrow>
      case addNode g3 3 ''D'' 0 0 of Inl e \<Rightarrow> Inl e | Inr g4 \<Rightarrow>
      case addEdge g4 0 1 (Fin 2) [] of Inl e \<Rightarrow> Inl e | Inr g5 \<Rightarrow>
      case addEdge g5 1 2 (Fin 2) [] of Inl e \<Rightarrow> Inl e | Inr g6 \<Rightarrow>
      case addEdge g6 2 3 (Fin 1) [] of Inl e \<Rightarrow> Inl e | Inr g7 \<Rightarrow>
      addEdge g7 0 2 (Fin 5) [])"
  by (simp add: city4_def newGraph_def addNode_def addEdge_def Let_def zero_double_def
      eval_nat_numeral)

text \<open>
  Claim C10. Whatever the state of the matcher, \<open>analyzeDemand\<close> returns
  \<open>successfulMatches = 0\<close>, \<open>failedMatches = 0\<close> and \<open>avgWaitTime = 0.0\<close>: it builds
  the statistics afresh and sets only the request count and the hotspots.
\<close>

theorem C10_stats_fields_zero:
  "successfulMatches (analyzeDemand L rm) = 0
   \<and> failedMatches (analyzeDemand L rm) = 0
   \<and> avgWaitTime (analyzeDemand L rm) = Fin 0"
  by (simp add: analyzeDemand_def Let_def emptyDemandStats_def zero_double_def)

lemma mset_insertBy: "mset (insertBy cmp x xs) = add_mset x (mset xs)"
  by (induction xs) auto

lemma mset_insertionSort: "mset (insertionSort cmp xs) = mset xs"
  by (induction xs) (auto simp: mset_insertBy)

lemma set_insertBy: "set (insertBy cmp x xs) = insert x (set xs)"
  by (induction xs) auto

lemma sorted_insertBy:
  "sorted_wrt (\<lambda>a b. \<not> byFrequency b a) xs \<Longrightarrow>
   sorted_wrt (\<lambda>a b. \<not> byFrequency b a) (insertBy byFrequency x xs)"
  by (induction xs) (auto simp: set_insertBy byFrequency_def)

lemma sorted_insertionSort:
  "sorted_wrt (\<lambda>a b. \<not> byFrequency b a) (insertionSort byFrequency xs)"
  by (induction xs) (auto simp: sorted_insertBy)

lemma stdLibOk_listLib: "stdLibOk listLib"
  by (simp add: stdLibOk_def listLib_def mset_insertionSort sorted_insertionSort)

lemma increment_countsOk:
  assumes L: "stdLibOk L" and ok: "countsOk m ps"
  shows "countsOk (increment L m k) (ps @ [k])"
proof -
  let ?g = "\<lambda>k'. (k', int (count_list ps k'))"
  let ?m1 = "if map_of m k = None then hashInsert L m (k, 0) else m"
  let ?f = "\<lambda>(k', c). if k' = k then (k', c + 1) else (k', c :: int)"
  have d: "distinct (map fst m)" and sm: "set m = ?g ` set ps"
    using ok by (auto simp: countsOk_def)
  have keys: "fst ` set m = set ps" unfolding sm by force
  have none: "(map_of m k = None) = (k \<notin> set ps)"
    using keys by (simp add: map_of_eq_None_iff)
  have m1: "distinct (map fst ?m1) \<and> set ?m1 = ?g ` (set ps \<union> {k})"
  proof (cases "k \<in> set ps")
    case True
    then have e: "set ps \<union> {k} = set ps" by auto
    have "map_of m k \<noteq> None" using none True by blast
    then have "?m1 = m" by (simp only: if_False)
    then show ?thesis using d sm e by simp
  next
    case False
    have ms: "mset (hashInsert L m (k, 0)) = add_mset (k, 0) (mset m)"
      using L by (simp add: stdLibOk_def)
    then have s1: "set (hashInsert L m (k, 0)) = insert (k, 0) (set m)"
      by (metis set_mset_add_mset_insert set_mset_mset)
    have "mset (map fst (hashInsert L m (k, 0))) = mset (map fst ((k, 0) # m))"
      using ms by (metis mset.simps(2) mset_map)
    then have "distinct (map fst (hashInsert L m (k, 0))) = distinct (map fst ((k, 0) # m))"
      by (rule mset_eq_imp_distinct_iff)
    then have d1: "distinct (map fst (hashInsert L m (k, 0)))"
      using d keys False by auto
    have "count_list ps k = 0" using False by (simp add: count_list_0_iff)
    then have "?g ` (set ps \<union> {k}) = insert (k, 0) (?g ` set ps)" by auto
    then show ?thesis using False none d1 s1 sm by simp
  qed
  have inc: "increment L m k = map ?f ?m1"
    by (simp add: increment_def Let_def)
  have fst: "map fst (map ?f ?m1) = map fst ?m1"
    by (induction ?m1) (auto split: prod.splits)
  have fg: "\<And>k'. ?f (?g k') = (k', int (count_list (ps @ [k]) k'))"
    by simp
  have "set (map ?f ?m1) = ?f ` ?g ` (set ps \<union> {k})"
    using m1 by (metis set_map)
  also have "\<dots> = (\<lambda>k'. ?f (?g k')) ` (set ps \<union> {k})"
    by (simp only: image_image)
  also have "\<dots> = (\<lambda>k'. (k', int (count_list (ps @ [k]) k'))) ` (set ps \<union> {k})"
    by (simp only: fg)
  also have "set ps \<union> {k} = set (ps @ [k])" by simp
  finally have st: "set (map ?f ?m1) = (\<lambda>k'. (k', int (count_list (ps @ [k]) k'))) ` set (ps @ [k])" .
  have "distinct (map fst (map ?f ?m1))"
    using m1 by (simp only: fst)
  then show ?thesis
    unfolding countsOk_def inc using st by (intro conjI)
qed

lemma countPickups_countsOk:
  "stdLibOk L \<Longrightarrow> countsOk m ps \<Longrightarrow>
   countsOk (countPickups L rs m) (ps @ map pickupLocation rs)"
proof (induction rs arbitrary: m ps)
  case Nil
  then show ?case by simp
next
  case (Cons r rs)
  from Cons.IH[OF Cons.prems(1) increment_countsOk[OF Cons.prems, of "pickupLocation r"]]
  show ?case by simp
qed

lemma count_list_map_pickup:
  "int (count_list (map pickupLocation w) x) = frequency w x"
  by (induction w) (auto simp: frequency_def)

lemma stdLibOk_appendLib: "stdLibOk appendLib"
  by (simp add: stdLibOk_def appendLib_def mset_insertionSort sorted_insertionSort)

text \<open>
  The sorted entries: each pickup location of the window once, with its frequency, by
  descending frequency.
\<close>

lemma sortedLocations_spec:
  assumes L: "stdLibOk L"
  shows "distinct (map fst (stdSort L byFrequency (countPickups L w [])))
       \<and> set (stdSort L byFrequency (countPickups L w []))
           = (\<lambda>k. (k, frequency w k)) ` pickupLocation ` set w
       \<and> sorted_wrt (\<lambda>a b. \<not> byFrequency b a) (stdSort L byFrequency (countPickups L w []))"
proof -
  let ?m = "countPickups L w []"
  let ?s = "stdSort L byFrequency ?m"
  have "countsOk [] []" by (simp add: countsOk_def)
  from countPickups_countsOk[OF L this, of w]
  have cm: "countsOk ?m (map pickupLocation w)" by simp
  have ms: "mset ?s = mset ?m" and srt: "sorted_wrt (\<lambda>a b. \<not> byFrequency b a) ?s"
    using L by (auto simp: stdLibOk_def)
  have sets: "set ?s = set ?m" using ms by (metis set_mset_mset)
  have "mset (map fst ?s) = mset (map fst ?m)" using ms by (metis mset_map)
  then have "distinct (map fst ?s) = distinct (map fst ?m)" by (rule mset_eq_imp_distinct_iff)
  then have ds: "distinct (map fst ?s)" using cm by (simp add: countsOk_def)
  have "set ?m = (\<lambda>k. (k, frequency w k)) ` pickupLocation ` set w"
    using cm by (simp add: countsOk_def count_list_map_pickup)
  then show ?thesis using ds sets srt by simp
qed

lemma sortedLocations_length:
  assumes L: "stdLibOk L"
  shows "length (stdSort L byFrequency (countPickups L w [])) = card (pickupLocation ` set w)"
proof -
  let ?s = "stdSort L byFrequency (countPickups L w [])"
  have d: "distinct (map fst ?s)"
    and st: "set ?s = (\<lambda>k. (k, frequency w k)) ` pickupLocation ` set w"
    using sortedLocations_spec[OF L, of w] by blast+
  have "fst ` set ?s = pickupLocation ` set w" unfolding st by force
  then have "card (pickupLocation ` set w) = card (set (map fst ?s))" by simp
  also have "\<dots> = length (map fst ?s)" using d by (rule distinct_card)
  finally show ?thesis by simp
qed

text \<open>
  Without two entries of equal frequency there is one order only: two libraries that keep
  the promise sort to the same list.
\<close>

lemma descending_unique:
  fixes xs ys :: "(int \<times> int) list"
  assumes "sorted_wrt (\<lambda>a b. \<not> byFrequency b a) xs" "sorted_wrt (\<lambda>a b. \<not> byFrequency b a) ys"
    and "distinct xs" "distinct ys" "set xs = set ys" "inj_on snd (set xs)"
  shows "xs = ys"
proof -
  have strict: "sorted_wrt (\<lambda>a b. snd b < snd a) zs"
    if s: "sorted_wrt (\<lambda>a b. \<not> byFrequency b a) zs" and d: "distinct zs"
      and i: "inj_on snd (set zs)" for zs :: "(int \<times> int) list"
    using s d i
  proof (induction zs)
    case Nil
    then show ?case by simp
  next
    case (Cons z zs)
    have "\<And>b. b \<in> set zs \<Longrightarrow> snd b < snd z"
    proof -
      fix b assume b: "b \<in> set zs"
      then have "snd b \<le> snd z" using Cons.prems(1) by (auto simp: byFrequency_def)
      moreover have "b \<noteq> z" using b Cons.prems(2) by auto
      then have "snd b \<noteq> snd z" using Cons.prems(3) b by (auto simp: inj_on_def)
      ultimately show "snd b < snd z" by simp
    qed
    moreover have "sorted_wrt (\<lambda>a b. snd b < snd a) zs"
      using Cons by (auto simp: inj_on_def)
    ultimately show ?case by simp
  qed
  have desc: "sorted_wrt (<) (rev (map snd zs))"
    if "sorted_wrt (\<lambda>a b. snd b < snd a) zs" for zs :: "(int \<times> int) list"
    using that by (simp add: sorted_wrt_rev sorted_wrt_map)
  have i2: "inj_on snd (set ys)" using assms(5,6) by simp
  have "sorted_wrt (<) (rev (map snd xs))" "sorted_wrt (<) (rev (map snd ys))"
    using strict[OF assms(1,3,6)] strict[OF assms(2,4) i2] desc by blast+
  moreover have "set (rev (map snd xs)) = set (rev (map snd ys))" using assms(5) by simp
  ultimately have "rev (map snd xs) = rev (map snd ys)"
    by (metis strict_sorted_equal)
  then have "map snd xs = map snd ys" by simp
  moreover have "inj_on snd (set xs \<union> set ys)" using assms(5,6) by simp
  ultimately show ?thesis by (simp add: inj_on_map_eq_map)
qed

lemma sortedLocations_unique:
  assumes L: "stdLibOk L" and L': "stdLibOk L'"
    and inj: "inj_on (frequency w) (pickupLocation ` set w)"
  shows "stdSort L' byFrequency (countPickups L' w []) = stdSort L byFrequency (countPickups L w [])"
proof -
  let ?s = "stdSort L byFrequency (countPickups L w [])"
  let ?s' = "stdSort L' byFrequency (countPickups L' w [])"
  note a = sortedLocations_spec[OF L, of w] and b = sortedLocations_spec[OF L', of w]
  have d: "distinct ?s" "distinct ?s'"
    using a b by (auto simp: distinct_map)
  have st: "set ?s' = set ?s" using a b by simp
  have "inj_on snd (set ?s')"
    using b inj by (auto simp: inj_on_def)
  then show ?thesis
    using descending_unique[of ?s' ?s] a b d st by blast
qed

text \<open>
  Claim C8, as the code has it. With a standard library that keeps its promise,
  \<open>analyzeDemand\<close> returns 3 hotspots, or every pickup location of the window when there
  are fewer than 3; they are distinct pickup locations of the window, listed by descending
  frequency, and no pickup location left out is more frequent than one listed. When no two
  pickup locations of the window have the same frequency, this list is the same with every
  library that keeps the promise. The order among locations of equal frequency is the
  library's: the program has no rule of its own for it.
\<close>

theorem C8_hotspots:
  assumes L: "stdLibOk L"
  shows "length (hotspots (analyzeDemand L rm))
           = min 3 (card (pickupLocation ` set (recentRequests rm)))
       \<and> distinct (hotspots (analyzeDemand L rm))
       \<and> set (hotspots (analyzeDemand L rm)) \<subseteq> pickupLocation ` set (recentRequests rm)
       \<and> sorted_wrt (\<lambda>a b. frequency (recentRequests rm) a \<ge> frequency (recentRequests rm) b)
            (hotspots (analyzeDemand L rm))
       \<and> (\<forall>x \<in> pickupLocation ` set (recentRequests rm) - set (hotspots (analyzeDemand L rm)).
            \<forall>y \<in> set (hotspots (analyzeDemand L rm)).
              frequency (recentRequests rm) x \<le> frequency (recentRequests rm) y)
       \<and> (stdLibOk L'
            \<and> inj_on (frequency (recentRequests rm)) (pickupLocation ` set (recentRequests rm))
            \<longrightarrow> hotspots (analyzeDemand L' rm) = hotspots (analyzeDemand L rm))"
proof (cases "recentRequests rm = []")
  case True
  then have "\<And>K. hotspots (analyzeDemand K rm) = []"
    by (simp add: analyzeDemand_def Let_def emptyDemandStats_def)
  then show ?thesis using True by simp
next
  case False
  let ?w = "recentRequests rm"
  let ?m = "countPickups L ?w []"
  let ?s = "stdSort L byFrequency ?m"
  let ?n = "min 3 (length ?s)"
  let ?R = "\<lambda>a b. \<not> byFrequency b a"
  let ?F = "frequency ?w"
  have hs: "\<And>K. hotspots (analyzeDemand K rm)
      = map fst (take (min 3 (length (stdSort K byFrequency (countPickups K ?w []))))
                   (stdSort K byFrequency (countPickups K ?w [])))"
    using False by (simp add: analyzeDemand_def Let_def)
  note sp = sortedLocations_spec[OF L, of ?w]
  have ds: "distinct (map fst ?s)" and srt: "sorted_wrt ?R ?s" using sp by blast+
  have el: "\<And>a. a \<in> set ?s \<Longrightarrow> fst a \<in> pickupLocation ` set ?w \<and> snd a = ?F (fst a)"
    using sp by auto
  have all: "\<And>x. x \<in> pickupLocation ` set ?w \<Longrightarrow> (x, ?F x) \<in> set ?s"
    using sp by auto
  have tk: "set (take ?n ?s) \<subseteq> set ?s" by (rule set_take_subset)
  have c1: "length (hotspots (analyzeDemand L rm)) = min 3 (card (pickupLocation ` set ?w))"
    unfolding hs using sortedLocations_length[OF L, of ?w] by simp
  have c2: "distinct (hotspots (analyzeDemand L rm))"
    unfolding hs using ds by (simp add: take_map[symmetric] distinct_take)
  have c3: "set (hotspots (analyzeDemand L rm)) \<subseteq> pickupLocation ` set ?w"
    unfolding hs using el tk by auto
  have "sorted_wrt ?R (take ?n ?s)" using srt by (rule sorted_wrt_take)
  then have "sorted_wrt (\<lambda>a b. ?F (fst a) \<ge> ?F (fst b)) (take ?n ?s)"
  proof (rule sorted_wrt_mono_rel[rotated])
    fix a b assume ab: "a \<in> set (take ?n ?s)" "b \<in> set (take ?n ?s)" "\<not> byFrequency b a"
    then have "a \<in> set ?s" "b \<in> set ?s" using tk by auto
    then have "snd a = ?F (fst a)" "snd b = ?F (fst b)" using el by auto
    then show "?F (fst b) \<le> ?F (fst a)"
      using ab(3) by (simp add: byFrequency_def)
  qed
  then have c4: "sorted_wrt (\<lambda>a b. ?F a \<ge> ?F b) (hotspots (analyzeDemand L rm))"
    unfolding hs by (simp add: sorted_wrt_map)
  have c5: "\<forall>x \<in> pickupLocation ` set ?w - set (hotspots (analyzeDemand L rm)).
            \<forall>y \<in> set (hotspots (analyzeDemand L rm)). ?F x \<le> ?F y"
  proof (intro ballI)
    fix x y
    assume x: "x \<in> pickupLocation ` set ?w - set (hotspots (analyzeDemand L rm))"
      and y: "y \<in> set (hotspots (analyzeDemand L rm))"
    from y obtain b where b: "b \<in> set (take ?n ?s)" "y = fst b" unfolding hs by auto
    have split: "set ?s = set (take ?n ?s) \<union> set (drop ?n ?s)"
      by (metis append_take_drop_id set_append)
    have "(x, ?F x) \<in> set ?s" using all x by simp
    moreover have "(x, ?F x) \<notin> set (take ?n ?s)"
    proof
      assume "(x, ?F x) \<in> set (take ?n ?s)"
      then have "fst (x, ?F x) \<in> fst ` set (take ?n ?s)" by (rule imageI)
      then have "x \<in> set (hotspots (analyzeDemand L rm))" unfolding hs by simp
      then show False using x by simp
    qed
    ultimately have xd: "(x, ?F x) \<in> set (drop ?n ?s)" unfolding split by blast
    have "sorted_wrt ?R (take ?n ?s @ drop ?n ?s)" using srt by simp
    then have "\<not> byFrequency (x, ?F x) b"
      using b(1) xd unfolding sorted_wrt_append by blast
    moreover have "b \<in> set ?s" using b(1) tk by auto
    then have "snd b = ?F (fst b)" using el by auto
    ultimately show "?F x \<le> ?F y"
      using b(2) by (simp add: byFrequency_def)
  qed
  have c6: "hotspots (analyzeDemand L' rm) = hotspots (analyzeDemand L rm)"
    if "stdLibOk L'" "inj_on ?F (pickupLocation ` set ?w)"
    unfolding hs using sortedLocations_unique[OF L that] by simp
  show ?thesis using c1 c2 c3 c4 c5 c6 by blast
qed

text \<open>The equations that evaluate \<open>analyzeDemand\<close> on a concrete window.\<close>

lemmas demand_eval = analyzeDemand_def increment_def listLib_def appendLib_def windowOf_def
  newRideMatcher_def request_def byFrequency_def Let_def emptyDemandStats_def

text \<open>
  Claim C8 on the window of pickups \<open>1, 2, 2, 3, 3, 3, 0, 0, 0, 0\<close>, where no two
  frequencies are equal: both libraries give the hotspots \<open>0, 3, 2\<close>, and location 1 is
  left out.
\<close>

theorem C8_witness:
  "stdLibOk listLib \<and> stdLibOk appendLib
   \<and> pickupLocation ` set (recentRequests (windowOf [1, 2, 2, 3, 3, 3, 0, 0, 0, 0])) = {0, 1, 2, 3}
   \<and> map (frequency (recentRequests (windowOf [1, 2, 2, 3, 3, 3, 0, 0, 0, 0]))) [0, 1, 2, 3]
       = [4, 1, 2, 3]
   \<and> inj_on (frequency (recentRequests (windowOf [1, 2, 2, 3, 3, 3, 0, 0, 0, 0])))
        (pickupLocation ` set (recentRequests (windowOf [1, 2, 2, 3, 3, 3, 0, 0, 0, 0])))
   \<and> hotspots (analyzeDemand listLib (windowOf [1, 2, 2, 3, 3, 3, 0, 0, 0, 0])) = [0, 3, 2]
   \<and> hotspots (analyzeDemand appendLib (windowOf [1, 2, 2, 3, 3, 3, 0, 0, 0, 0])) = [0, 3, 2]
   \<and> length (hotspots (analyzeDemand listLib (windowOf [1, 2, 2, 3, 3, 3, 0, 0, 0, 0])))
       = min 3 (card (pickupLocation ` set (recentRequests (windowOf [1, 2, 2, 3, 3, 3, 0, 0, 0, 0]))))"
proof -
  let ?rm = "windowOf [1, 2, 2, 3, 3, 3, 0, 0, 0, 0]"
  have p: "pickupLocation ` set (recentRequests ?rm) = {0, 1, 2, 3}"
    by (auto simp: windowOf_def request_def)
  have f: "map (frequency (recentRequests ?rm)) [0, 1, 2, 3] = [4, 1, 2, 3]"
    by (simp add: windowOf_def request_def frequency_def)
  have i: "inj_on (frequency (recentRequests ?rm)) (pickupLocation ` set (recentRequests ?rm))"
    unfolding p using f by (simp add: inj_on_def)
  have h: "hotspots (analyzeDemand listLib ?rm) = [0, 3, 2]"
    by (simp add: demand_eval)
  show ?thesis
    using C8_hotspots[OF stdLibOk_listLib, of ?rm appendLib] stdLibOk_listLib
      stdLibOk_appendLib p f i h
    by simp
qed

text \<open>
  The claim read as a rule of the program for equal frequencies: on the window of pickups
  \<open>1, 2, 3, 4\<close>, each of frequency 1, the library that enters a new key first gives the
  hotspots \<open>4, 3, 2\<close> and the library that enters it last gives \<open>1, 2, 3\<close>. Both keep
  the promise, so neither the order nor the choice among equal frequencies comes from the
  program, and the first list is not by ascending location.
\<close>

theorem C8_counterexample:
  "stdLibOk listLib \<and> stdLibOk appendLib
   \<and> map (frequency (recentRequests (windowOf [1, 2, 3, 4]))) [1, 2, 3, 4] = [1, 1, 1, 1]
   \<and> hotspots (analyzeDemand listLib (windowOf [1, 2, 3, 4])) = [4, 3, 2]
   \<and> hotspots (analyzeDemand appendLib (windowOf [1, 2, 3, 4])) = [1, 2, 3]
   \<and> hotspots (analyzeDemand listLib (windowOf [1, 2, 3, 4]))
       \<noteq> hotspots (analyzeDemand appendLib (windowOf [1, 2, 3, 4]))
   \<and> 4 \<in> set (hotspots (analyzeDemand listLib (windowOf [1, 2, 3, 4])))
   \<and> 4 \<notin> set (hotspots (analyzeDemand appendLib (windowOf [1, 2, 3, 4])))"
proof -
  have a: "hotspots (analyzeDemand listLib (windowOf [1, 2, 3, 4])) = [4, 3, 2]"
    by (simp add: demand_eval)
  have b: "hotspots (analyzeDemand appendLib (windowOf [1, 2, 3, 4])) = [1, 2, 3]"
    by (simp add: demand_eval)
  have f: "map (frequency (recentRequests (windowOf [1, 2, 3, 4]))) [1, 2, 3, 4] = [1, 1, 1, 1]"
    by (simp add: windowOf_def request_def frequency_def)
  show ?thesis unfolding a b using stdLibOk_listLib stdLibOk_appendLib f by auto
qed

section \<open>Matching rides\<close>

lemma route_found:
  assumes G: "graphOk g"
  shows "findShortestPath g a b = Some (Inr (route g a b))
       \<and> found (route g a b) = reaches g a b
       \<and> (found (route g a b) \<longrightarrow>
            shortestDistance g a b (totalDistance (route g a b))
            \<and> hd (path (route g a b)) = a \<and> last (path (route g a b)) = b)
       \<and> (\<not> found (route g a b) \<longrightarrow> route g a b = notFound)"
proof -
  from findShortestPath_spec[OF G, of a b]
  obtain res where res: "findShortestPath g a b = Some (Inr res)"
    and f: "found res = (nodeExists g a \<and> nodeExists g b
            \<and> (\<exists>route. isWalk g a route \<and> walkEnd a route = b \<and> walkWeight route \<noteq> PosInf))"
    and p: "found res \<longrightarrow> totalDistance res \<noteq> PosInf
            \<and> estimatedTime res = calculateETA (totalDistance res) 40
            \<and> (\<exists>es. isWalk g a es \<and> walkEnd a es = b \<and> path res = walkNodes a es
                     \<and> walkWeight es = totalDistance res)
            \<and> (\<forall>es. isWalk g a es \<and> walkEnd a es = b \<longrightarrow> totalDistance res \<le> walkWeight es)"
    and n: "\<not> found res \<longrightarrow> res = notFound"
    by (elim exE conjE) 
  have r: "route g a b = res" using res by (simp add: route_def)
  have h: "found res \<longrightarrow> hd (path res) = a \<and> last (path res) = b"
  proof
    assume "found res"
    then obtain es where "walkEnd a es = b" "path res = walkNodes a es" using p by blast
    then show "hd (path res) = a \<and> last (path res) = b"
      by (simp add: hd_walkNodes last_walkNodes)
  qed
  have s: "found res \<longrightarrow> shortestDistance g a b (totalDistance res)"
  proof
    assume fr: "found res"
    then have "nodeExists g a" "nodeExists g b" using f by simp_all
    moreover have "totalDistance res \<noteq> PosInf" using p fr by simp
    moreover have "\<exists>es. isWalk g a es \<and> walkEnd a es = b \<and> walkWeight es = totalDistance res"
      using p fr by blast
    moreover have "\<forall>es. isWalk g a es \<and> walkEnd a es = b \<longrightarrow> totalDistance res \<le> walkWeight es"
      using p fr by blast
    ultimately show "shortestDistance g a b (totalDistance res)"
      unfolding shortestDistance_def by (intro conjI)
  qed
  have "found res = reaches g a b" unfolding reaches_def by (rule f)
  then show ?thesis unfolding r using res h s n by (intro conjI; blast)
qed


text \<open>The loop of \<open>findNearestDriver\<close>: it keeps the least distance of the drivers seen.\<close>

lemma nearestLoop_spec:
  assumes G: "graphOk g"
  shows "\<exists>m nd bp lg. nearestLoop g pickup ds (m0, nd0, bp0, lg0) = Some (Inr (m, nd, bp, lg))
       \<and> m \<le> m0
       \<and> (\<forall>d \<in> set ds. found (route g (currentLocation d) pickup) \<longrightarrow>
             m \<le> totalDistance (route g (currentLocation d) pickup))
       \<and> ((m = m0 \<and> nd = nd0 \<and> bp = bp0 \<and> lg = lg0)
          \<or> (\<exists>d \<in> set ds. found (route g (currentLocation d) pickup) \<and> nd = Some d
                \<and> m = totalDistance (route g (currentLocation d) pickup) \<and> m < m0
                \<and> bp = path (route g (currentLocation d) pickup)))"
proof (induction ds arbitrary: m0 nd0 bp0 lg0)
  case Nil
  show ?case by simp
next
  case (Cons d rest)
  let ?p = "route g (currentLocation d) pickup"
  have fp: "findShortestPath g (currentLocation d) pickup = Some (Inr ?p)"
    using route_found[OF G] by blast
  show ?case
  proof (cases "found ?p \<and> totalDistance ?p < m0")
    case True
    obtain m nd bp lg where
      r: "nearestLoop g pickup rest (totalDistance ?p, Some d, path ?p,
            lg0 @ [[Str ''  Driver '', Str (driverId d), Str '' at location '',
                    Num (currentLocation d), Str '' has distance '',
                    Fixed 2 (totalDistance ?p), Str '' km to pickup'']])
          = Some (Inr (m, nd, bp, lg))"
      and le: "m \<le> totalDistance ?p"
      and all: "\<forall>d \<in> set rest. found (route g (currentLocation d) pickup) \<longrightarrow>
             m \<le> totalDistance (route g (currentLocation d) pickup)"
      and dis: "(m = totalDistance ?p \<and> nd = Some d \<and> bp = path ?p
             \<and> lg = lg0 @ [[Str ''  Driver '', Str (driverId d), Str '' at location '',
                    Num (currentLocation d), Str '' has distance '',
                    Fixed 2 (totalDistance ?p), Str '' km to pickup'']])
          \<or> (\<exists>d' \<in> set rest. found (route g (currentLocation d') pickup) \<and> nd = Some d'
                \<and> m = totalDistance (route g (currentLocation d') pickup) \<and> m < totalDistance ?p
                \<and> bp = path (route g (currentLocation d') pickup))"
      using Cons.IH[of "totalDistance ?p" "Some d" "path ?p"
          "lg0 @ [[Str ''  Driver '', Str (driverId d), Str '' at location '',
                    Num (currentLocation d), Str '' has distance '',
                    Fixed 2 (totalDistance ?p), Str '' km to pickup'']]"]
      by (elim exE conjE) blast
    have e: "nearestLoop g pickup (d # rest) (m0, nd0, bp0, lg0) = Some (Inr (m, nd, bp, lg))"
      using fp True r by simp
    have lt: "m < m0" using le True by (metis le_less_trans)
    have "\<exists>d' \<in> set (d # rest). found (route g (currentLocation d') pickup) \<and> nd = Some d'
                \<and> m = totalDistance (route g (currentLocation d') pickup) \<and> m < m0
                \<and> bp = path (route g (currentLocation d') pickup)"
      using dis True lt by auto
    moreover have "\<forall>d' \<in> set (d # rest). found (route g (currentLocation d') pickup) \<longrightarrow>
             m \<le> totalDistance (route g (currentLocation d') pickup)"
      using all le by simp
    moreover have "m \<le> m0" using lt by simp
    ultimately show ?thesis using e by blast
  next
    case False
    obtain m nd bp lg where
      r: "nearestLoop g pickup rest (m0, nd0, bp0, lg0) = Some (Inr (m, nd, bp, lg))"
      and le: "m \<le> m0"
      and all: "\<forall>d \<in> set rest. found (route g (currentLocation d) pickup) \<longrightarrow>
             m \<le> totalDistance (route g (currentLocation d) pickup)"
      and dis: "(m = m0 \<and> nd = nd0 \<and> bp = bp0 \<and> lg = lg0)
          \<or> (\<exists>d' \<in> set rest. found (route g (currentLocation d') pickup) \<and> nd = Some d'
                \<and> m = totalDistance (route g (currentLocation d') pickup) \<and> m < m0
                \<and> bp = path (route g (currentLocation d') pickup))"
      using Cons.IH[of m0 nd0 bp0 lg0] by (elim exE conjE) blast
    have e: "nearestLoop g pickup (d # rest) (m0, nd0, bp0, lg0) = Some (Inr (m, nd, bp, lg))"
      using fp False r by auto
    have "found ?p \<longrightarrow> m \<le> totalDistance ?p" using False le by auto
    then have "\<forall>d' \<in> set (d # rest). found (route g (currentLocation d') pickup) \<longrightarrow>
             m \<le> totalDistance (route g (currentLocation d') pickup)"
      using all by simp
    moreover have "(m = m0 \<and> nd = nd0 \<and> bp = bp0 \<and> lg = lg0)
          \<or> (\<exists>d' \<in> set (d # rest). found (route g (currentLocation d') pickup) \<and> nd = Some d'
                \<and> m = totalDistance (route g (currentLocation d') pickup) \<and> m < m0
                \<and> bp = path (route g (currentLocation d') pickup))"
      using dis by auto
    ultimately show ?thesis using e le by blast
  qed
qed

lemma found_finite:
  assumes "graphOk g" "found (route g a b)"
  shows "totalDistance (route g a b) < PosInf"
  using route_found[OF assms(1), of a b] assms(2) by (simp add: shortestDistance_def)

text \<open>The search for the nearest driver changes the system log only.\<close>

lemma findNearestDriver_spec:
  assumes G: "graphOk (graph rm)"
  shows "\<exists>res rm'. findNearestDriver rm pickup = Some (Inr (res, rm'))
     \<and> graph rm' = graph rm \<and> driverManager rm' = driverManager rm
     \<and> nearestFound res = (\<exists>d \<in> set (available rm). reaches (graph rm) (currentLocation d) pickup)
     \<and> (nearestFound res \<longrightarrow>
           driver res \<in> set (available rm)
           \<and> found (route (graph rm) (currentLocation (driver res)) pickup)
           \<and> nearestDistance res = totalDistance (route (graph rm) (currentLocation (driver res)) pickup)
           \<and> pathToPassenger res = path (route (graph rm) (currentLocation (driver res)) pickup)
           \<and> (\<forall>d \<in> set (available rm). found (route (graph rm) (currentLocation d) pickup) \<longrightarrow>
                 nearestDistance res \<le> totalDistance (route (graph rm) (currentLocation d) pickup)))
     \<and> (\<not> nearestFound res \<longrightarrow>
           res = notFoundDriver
           \<and> systemLogs rm' = systemLogs rm @
               (if available rm = [] then [[Str ''No available drivers found'']]
                else [[Str ''Searching for nearest driver among '', Count (length (available rm)),
                       Str '' available drivers using Greedy approach''],
                      [Str ''Could not find reachable driver'']]))"
proof (cases "available rm = []")
  case True
  then have "findNearestDriver rm pickup =
      Some (Inr (notFoundDriver, logOperation rm [Str ''No available drivers found'']))"
    by (simp add: findNearestDriver_def available_def)
  then show ?thesis using True by (simp add: logOperation_def notFoundDriver_def)
next
  case False
  let ?g = "graph rm"
  let ?l0 = "systemLogs rm @ [[Str ''Searching for nearest driver among '',
                Count (length (available rm)), Str '' available drivers using Greedy approach'']]"
  let ?rm1 = "logOperation rm [Str ''Searching for nearest driver among '',
                Count (length (available rm)), Str '' available drivers using Greedy approach'']"
  have l0: "systemLogs ?rm1 = ?l0" by (simp add: logOperation_def)
  obtain m nd bp lg where
    r: "nearestLoop ?g pickup (available rm) (PosInf, None, [], ?l0) = Some (Inr (m, nd, bp, lg))"
    and all: "\<forall>d \<in> set (available rm). found (route ?g (currentLocation d) pickup) \<longrightarrow>
             m \<le> totalDistance (route ?g (currentLocation d) pickup)"
    and dis: "(m = PosInf \<and> nd = None \<and> bp = [] \<and> lg = ?l0)
          \<or> (\<exists>d \<in> set (available rm). found (route ?g (currentLocation d) pickup) \<and> nd = Some d
                \<and> m = totalDistance (route ?g (currentLocation d) pickup) \<and> m < PosInf
                \<and> bp = path (route ?g (currentLocation d) pickup))"
    using nearestLoop_spec[OF G, of pickup "available rm" PosInf None "[]" ?l0]
    by (elim exE conjE) blast
  have re: "\<And>d. found (route ?g (currentLocation d) pickup) = reaches ?g (currentLocation d) pickup"
    using route_found[OF G] by blast
  show ?thesis
  proof (cases "\<exists>d \<in> set (available rm). found (route ?g (currentLocation d) pickup)")
    case ex: True
    then obtain d0 where d0: "d0 \<in> set (available rm)" "found (route ?g (currentLocation d0) pickup)"
      by blast
    have "m \<le> totalDistance (route ?g (currentLocation d0) pickup)" using all d0 by blast
    then have "m < PosInf" using found_finite[OF G d0(2)] by (metis le_less_trans)
    then have "m \<noteq> PosInf" by simp
    then obtain d where d: "d \<in> set (available rm)" "found (route ?g (currentLocation d) pickup)"
      "nd = Some d" "m = totalDistance (route ?g (currentLocation d) pickup)"
      "bp = path (route ?g (currentLocation d) pickup)"
      using dis by blast
    have e: "findNearestDriver rm pickup =
        Some (Inr (\<lparr>driver = d, nearestDistance = m, pathToPassenger = bp, nearestFound = True\<rparr>,
                   ?rm1\<lparr>systemLogs := lg @
                      [[Str ''Selected nearest driver: '', Str (driverId d),
                        Str '' (distance: '', Fixed 2 m, Str '' km)'']]\<rparr>))"
      using False r d(3) l0 by (simp add: findNearestDriver_def available_def Let_def)
    have ex': "\<exists>d \<in> set (available rm). reaches ?g (currentLocation d) pickup"
      using ex by (simp add: re)
    show ?thesis
      unfolding e using d all ex' by (simp add: logOperation_def)
  next
    case nex: False
    then have n: "m = PosInf" "nd = None" "bp = []" "lg = ?l0" using dis by blast+
    have e: "findNearestDriver rm pickup =
        Some (Inr (notFoundDriver,
                   ?rm1\<lparr>systemLogs := lg @ [[Str ''Could not find reachable driver'']]\<rparr>))"
      using False r n(2) l0 by (simp add: findNearestDriver_def available_def Let_def)
    have nex': "\<not> (\<exists>d \<in> set (available rm). reaches ?g (currentLocation d) pickup)"
      using nex by (simp add: re)
    show ?thesis
      unfolding e using nex' False n(4) by (simp add: logOperation_def notFoundDriver_def)
  qed
qed

text \<open>Marking an available driver busy.\<close>

lemma map_of_markedBusy:
  "map_of (markedBusy i ds) k =
     (if k = i then map_option (\<lambda>x. x\<lparr>isAvailable := False\<rparr>) (map_of ds k) else map_of ds k)"
  by (induction ds) (auto simp: markedBusy_def)

lemma map_fst_markedBusy: "map fst (markedBusy i ds) = map fst ds"
  by (induction ds) (auto simp: markedBusy_def)

lemma available_entry:
  assumes ok: "driversOk dm" and d: "d \<in> set (getAvailableDrivers dm)"
  shows "map_of (drivers dm) (driverId d) = Some d \<and> isAvailable d"
proof -
  obtain k where k: "(k, d) \<in> set (drivers dm)" and a: "isAvailable d"
    using d by (auto simp: getAvailableDrivers_def)
  have "driverId d = k" using ok k by (auto simp: driversOk_def list_all_iff)
  moreover have "map_of (drivers dm) k = Some d"
    using ok k by (simp add: driversOk_def)
  ultimately show ?thesis using a by simp
qed

lemma markBusy:
  assumes ok: "driversOk dm" and d: "d \<in> set (getAvailableDrivers dm)"
  shows "drivers (snd (updateDriverAvailability dm (driverId d) False))
           = markedBusy (driverId d) (drivers dm)
       \<and> getDriver (snd (updateDriverAvailability dm (driverId d) False)) (driverId d)
           = Some (d\<lparr>isAvailable := False\<rparr>)"
proof -
  have m: "map_of (drivers dm) (driverId d) = Some d" using available_entry[OF ok d] by simp
  then have "drivers (snd (updateDriverAvailability dm (driverId d) False))
           = markedBusy (driverId d) (drivers dm)"
    by (simp add: updateDriverAvailability_def markedBusy_def)
  then show ?thesis using m by (simp add: getDriver_def map_of_markedBusy)
qed

text \<open>Adding drivers keeps the registry well formed.\<close>

lemma driversOk_addDriver:
  assumes ok: "driversOk dm" and pl: "mset (place (drivers dm) (driverId d, d)) = add_mset (driverId d, d) (mset (drivers dm))"
  shows "driversOk (snd (addDriver place dm d))"
proof (cases "map_of (drivers dm) (driverId d)")
  case (Some x)
  then show ?thesis using ok by (simp add: addDriver_def driversOk_def)
next
  case None
  let ?ds = "place (drivers dm) (driverId d, d)"
  have nk: "driverId d \<notin> fst ` set (drivers dm)" using None by (simp add: map_of_eq_None_iff)
  have "mset (map fst ?ds) = add_mset (driverId d) (mset (map fst (drivers dm)))"
    using pl by (metis fst_conv image_mset_add_mset mset_map)
  moreover have "distinct (driverId d # map fst (drivers dm))"
    using ok nk by (simp add: driversOk_def)
  ultimately have "distinct (map fst ?ds)"
    by (metis distinct_count_atmost_1 mset.simps(2) set_mset_mset)
  moreover have "set ?ds = insert (driverId d, d) (set (drivers dm))"
    using pl by (metis set_mset_add_mset_insert set_mset_mset)
  then have "list_all (\<lambda>(k, d). driverId d = k) ?ds"
    using ok by (auto simp: driversOk_def list_all_iff)
  ultimately show ?thesis using None by (simp add: addDriver_def driversOk_def)
qed


text \<open>
  \<open>processRequest\<close>, outcome by outcome. The registry changes in the last case only, by
  the call that marks the assigned driver busy.
\<close>

lemma processRequest_invalid:
  "\<not> nodeExists (graph rm) (pickupLocation req) \<Longrightarrow>
     \<exists>rm'. processRequest rm req = Some (Inr (failWith ''Invalid pickup location'', rm'))
          \<and> driverManager rm' = driverManager rm"
  "nodeExists (graph rm) (pickupLocation req) \<Longrightarrow>
   \<not> nodeExists (graph rm) (destinationLocation req) \<Longrightarrow>
     \<exists>rm'. processRequest rm req = Some (Inr (failWith ''Invalid destination location'', rm'))
          \<and> driverManager rm' = driverManager rm"
  "nodeExists (graph rm) (pickupLocation req) \<Longrightarrow>
   nodeExists (graph rm) (destinationLocation req) \<Longrightarrow>
   pickupLocation req = destinationLocation req \<Longrightarrow>
     \<exists>rm'. processRequest rm req =
            Some (Inr (failWith ''Pickup and destination cannot be the same'', rm'))
          \<and> driverManager rm' = driverManager rm"
  by (simp_all add: processRequest_def Let_def logOperation_def)


lemma processRequest_no_driver:
  assumes G: "graphOk (graph rm)"
    and v: "nodeExists (graph rm) (pickupLocation req)"
      "nodeExists (graph rm) (destinationLocation req)"
      "pickupLocation req \<noteq> destinationLocation req"
    and nr: "\<not> (\<exists>d \<in> set (available rm).
                 reaches (graph rm) (currentLocation d) (pickupLocation req))"
  shows "\<exists>rm'. processRequest rm req = Some (Inr (failWith ''No available drivers found'', rm'))
     \<and> driverManager rm' = driverManager rm
     \<and> systemLogs rm' =
          [[Str ''Processing ride request '', Str (requestId req)]] @
          (if available rm = [] then [[Str ''No available drivers found'']]
           else [[Str ''Searching for nearest driver among '', Count (length (available rm)),
                  Str '' available drivers using Greedy approach''],
                 [Str ''Could not find reachable driver'']]) @
          [[Str ''Error: No available drivers'']]"
proof -
  let ?g = "graph rm"
  let ?p = "pickupLocation req"
  let ?rm = "logOperation (rm\<lparr>systemLogs := []\<rparr>)
               [Str ''Processing ride request '', Str (requestId req)]"
  have g: "graph ?rm = ?g" and dm: "driverManager ?rm = driverManager rm"
    and av: "available ?rm = available rm"
    and lg: "systemLogs ?rm = [[Str ''Processing ride request '', Str (requestId req)]]"
    by (simp_all add: logOperation_def available_def)
  have G': "graphOk (graph ?rm)" using G g by simp
  from findNearestDriver_spec[OF G', of ?p]
  obtain res rm1 where n: "findNearestDriver ?rm ?p = Some (Inr (res, rm1))"
      and dm1: "driverManager rm1 = driverManager ?rm"
      and nf: "nearestFound res = (\<exists>d \<in> set (available ?rm). reaches (graph ?rm) (currentLocation d) ?p)"
      and no: "\<not> nearestFound res \<longrightarrow>
           res = notFoundDriver
           \<and> systemLogs rm1 = systemLogs ?rm @
               (if available ?rm = [] then [[Str ''No available drivers found'']]
                else [[Str ''Searching for nearest driver among '', Count (length (available ?rm)),
                       Str '' available drivers using Greedy approach''],
                      [Str ''Could not find reachable driver'']])"
    by (elim exE conjE)
  have f: "\<not> nearestFound res" using nf nr unfolding g av by simp
  have l1: "systemLogs rm1 = systemLogs ?rm @
               (if available rm = [] then [[Str ''No available drivers found'']]
                else [[Str ''Searching for nearest driver among '', Count (length (available rm)),
                       Str '' available drivers using Greedy approach''],
                      [Str ''Could not find reachable driver'']])"
    using no f unfolding av by blast
  have e: "processRequest rm req =
          Some (Inr (failWith ''No available drivers found'',
                     logOperation rm1 [Str ''Error: No available drivers'']))"
    unfolding processRequest_def Let_def using v n f by (simp add: g)
  show ?thesis unfolding e using dm1 dm l1 lg
    by (intro exI[of _ "logOperation rm1 [Str ''Error: No available drivers'']"])
       (simp add: logOperation_def)
qed


text \<open>
  With a valid request and a driver that reaches the pickup, the search returns a nearest
  driver; \<open>processRequest\<close> then looks for the route from pickup to destination.
\<close>

lemma processRequest_driver:
  assumes G: "graphOk (graph rm)"
    and v: "nodeExists (graph rm) (pickupLocation req)"
      "nodeExists (graph rm) (destinationLocation req)"
      "pickupLocation req \<noteq> destinationLocation req"
    and ex: "\<exists>d \<in> set (available rm).
                 reaches (graph rm) (currentLocation d) (pickupLocation req)"
  shows "\<exists>res rm1.
       findNearestDriver
         (logOperation (rm\<lparr>systemLogs := []\<rparr>)
            [Str ''Processing ride request '', Str (requestId req)]) (pickupLocation req)
         = Some (Inr (res, rm1))
     \<and> graph rm1 = graph rm \<and> driverManager rm1 = driverManager rm \<and> nearestFound res
     \<and> driver res \<in> set (available rm)
     \<and> found (route (graph rm) (currentLocation (driver res)) (pickupLocation req))
     \<and> nearestDistance res =
          totalDistance (route (graph rm) (currentLocation (driver res)) (pickupLocation req))
     \<and> pathToPassenger res =
          path (route (graph rm) (currentLocation (driver res)) (pickupLocation req))
     \<and> (\<forall>d \<in> set (available rm).
           found (route (graph rm) (currentLocation d) (pickupLocation req)) \<longrightarrow>
           nearestDistance res
             \<le> totalDistance (route (graph rm) (currentLocation d) (pickupLocation req)))"
proof -
  let ?g = "graph rm"
  let ?p = "pickupLocation req"
  let ?rm = "logOperation (rm\<lparr>systemLogs := []\<rparr>)
               [Str ''Processing ride request '', Str (requestId req)]"
  have g: "graph ?rm = ?g" and dm: "driverManager ?rm = driverManager rm"
    and av: "available ?rm = available rm"
    by (simp_all add: logOperation_def available_def)
  have G': "graphOk (graph ?rm)" using G g by simp
  from findNearestDriver_spec[OF G', of ?p]
  obtain res rm1 where n: "findNearestDriver ?rm ?p = Some (Inr (res, rm1))"
      and g1: "graph rm1 = graph ?rm"
      and dm1: "driverManager rm1 = driverManager ?rm"
      and nf: "nearestFound res = (\<exists>d \<in> set (available ?rm). reaches (graph ?rm) (currentLocation d) ?p)"
      and ok: "nearestFound res \<longrightarrow>
           driver res \<in> set (available ?rm)
           \<and> found (route (graph ?rm) (currentLocation (driver res)) ?p)
           \<and> nearestDistance res = totalDistance (route (graph ?rm) (currentLocation (driver res)) ?p)
           \<and> pathToPassenger res = path (route (graph ?rm) (currentLocation (driver res)) ?p)
           \<and> (\<forall>d \<in> set (available ?rm). found (route (graph ?rm) (currentLocation d) ?p) \<longrightarrow>
                 nearestDistance res \<le> totalDistance (route (graph ?rm) (currentLocation d) ?p))"
    by (elim exE conjE)
  have f: "nearestFound res" using nf ex unfolding g av by simp
  have ok': "driver res \<in> set (available rm)
           \<and> found (route ?g (currentLocation (driver res)) ?p)
           \<and> nearestDistance res = totalDistance (route ?g (currentLocation (driver res)) ?p)
           \<and> pathToPassenger res = path (route ?g (currentLocation (driver res)) ?p)
           \<and> (\<forall>d \<in> set (available rm). found (route ?g (currentLocation d) ?p) \<longrightarrow>
                 nearestDistance res \<le> totalDistance (route ?g (currentLocation d) ?p))"
    using ok f unfolding g av by blast
  have "graph rm1 = ?g" "driverManager rm1 = driverManager rm" using g1 dm1 g dm by simp_all
  then show ?thesis using n f ok' by blast
qed

lemma processRequest_no_route:
  assumes G: "graphOk (graph rm)"
    and v: "nodeExists (graph rm) (pickupLocation req)"
      "nodeExists (graph rm) (destinationLocation req)"
      "pickupLocation req \<noteq> destinationLocation req"
    and ex: "\<exists>d \<in> set (available rm).
                 reaches (graph rm) (currentLocation d) (pickupLocation req)"
    and nr: "\<not> reaches (graph rm) (pickupLocation req) (destinationLocation req)"
  shows "\<exists>rm'. processRequest rm req =
            Some (Inr (failWith ''No route found from pickup to destination'', rm'))
     \<and> driverManager rm' = driverManager rm"
proof -
  let ?g = "graph rm"
  let ?p = "pickupLocation req"
  let ?q = "destinationLocation req"
  let ?rm = "logOperation (rm\<lparr>systemLogs := []\<rparr>)
               [Str ''Processing ride request '', Str (requestId req)]"
  have g: "graph ?rm = ?g" by (simp add: logOperation_def)
  obtain res rm1 where n: "findNearestDriver ?rm ?p = Some (Inr (res, rm1))"
    and g1: "graph rm1 = ?g" and dm1: "driverManager rm1 = driverManager rm"
    and f: "nearestFound res"
    using processRequest_driver[OF G v ex] by (elim exE conjE)
  have fq: "findShortestPath ?g ?p ?q = Some (Inr (route ?g ?p ?q))"
    and rq: "found (route ?g ?p ?q) = reaches ?g ?p ?q"
    using route_found[OF G, of ?p ?q] by blast+
  have nfq: "\<not> found (route ?g ?p ?q)" using rq nr by simp
  have e: "processRequest rm req =
            Some (Inr (failWith ''No route found from pickup to destination'',
                       logOperation rm1 [Str ''Error: No route from pickup to destination'']))"
    unfolding processRequest_def Let_def using v n f fq nfq by (simp add: g g1)
  show ?thesis unfolding e using dm1
    by (intro exI[of _ "logOperation rm1 [Str ''Error: No route from pickup to destination'']"])
       (simp add: logOperation_def)
qed

lemma processRequest_success:
  assumes G: "graphOk (graph rm)"
    and v: "nodeExists (graph rm) (pickupLocation req)"
      "nodeExists (graph rm) (destinationLocation req)"
      "pickupLocation req \<noteq> destinationLocation req"
    and ex: "\<exists>d \<in> set (available rm).
                 reaches (graph rm) (currentLocation d) (pickupLocation req)"
    and yr: "reaches (graph rm) (pickupLocation req) (destinationLocation req)"
  shows "\<exists>r rm'. processRequest rm req = Some (Inr (r, rm'))
     \<and> matchSuccess r \<and> matchErrorMessage r = []
     \<and> assignedDriver r \<in> set (available rm)
     \<and> found (route (graph rm) (currentLocation (assignedDriver r)) (pickupLocation req))
     \<and> driverToPickupDistance r =
          totalDistance (route (graph rm) (currentLocation (assignedDriver r))
                           (pickupLocation req))
     \<and> driverToPickupPath r =
          path (route (graph rm) (currentLocation (assignedDriver r)) (pickupLocation req))
     \<and> (\<forall>d \<in> set (available rm).
           found (route (graph rm) (currentLocation d) (pickupLocation req)) \<longrightarrow>
           driverToPickupDistance r
             \<le> totalDistance (route (graph rm) (currentLocation d) (pickupLocation req)))
     \<and> pickupToDestinationPath r =
          path (route (graph rm) (pickupLocation req) (destinationLocation req))
     \<and> pickupToDestinationDistance r =
          totalDistance (route (graph rm) (pickupLocation req) (destinationLocation req))
     \<and> matchTotalDistance r = driverToPickupDistance r + pickupToDestinationDistance r
     \<and> driverManager rm' =
          snd (updateDriverAvailability (driverManager rm) (driverId (assignedDriver r)) False)"
proof -
  let ?g = "graph rm"
  let ?p = "pickupLocation req"
  let ?q = "destinationLocation req"
  let ?rm = "logOperation (rm\<lparr>systemLogs := []\<rparr>)
               [Str ''Processing ride request '', Str (requestId req)]"
  let ?pq = "route ?g ?p ?q"
  have g: "graph ?rm = ?g" by (simp add: logOperation_def)
  obtain res rm1 where n: "findNearestDriver ?rm ?p = Some (Inr (res, rm1))"
    and g1: "graph rm1 = ?g" and dm1: "driverManager rm1 = driverManager rm"
    and f: "nearestFound res"
    and ok: "driver res \<in> set (available rm)"
      "found (route ?g (currentLocation (driver res)) ?p)"
      "nearestDistance res = totalDistance (route ?g (currentLocation (driver res)) ?p)"
      "pathToPassenger res = path (route ?g (currentLocation (driver res)) ?p)"
      "\<forall>d \<in> set (available rm). found (route ?g (currentLocation d) ?p) \<longrightarrow>
           nearestDistance res \<le> totalDistance (route ?g (currentLocation d) ?p)"
    using processRequest_driver[OF G v ex] by (elim exE conjE)
  have fq: "findShortestPath ?g ?p ?q = Some (Inr ?pq)"
    and rq: "found ?pq = reaches ?g ?p ?q"
    using route_found[OF G, of ?p ?q] by blast+
  have fqT: "found ?pq" using rq yr by simp
  define eta1 where "eta1 = calculateETA (nearestDistance res) 40"
  define total where "total = nearestDistance res + totalDistance ?pq"
  define eta where "eta = eta1 + estimatedTime ?pq"
  define result where "result =
     \<lparr>matchSuccess = True, matchErrorMessage = [],
      assignedDriver = driver res,
      driverToPickupDistance = nearestDistance res,
      driverToPickupPath = pathToPassenger res,
      driverToPickupETA = eta1,
      pickupToDestinationPath = path ?pq,
      pickupToDestinationDistance = totalDistance ?pq,
      pickupToDestinationETA = estimatedTime ?pq,
      matchTotalDistance = total, totalETA = eta,
      matchingLogs = systemLogs rm1\<rparr>"
  define rm2 where "rm2 =
     logOperation
       (rm1\<lparr>driverManager :=
              snd (updateDriverAvailability (driverManager rm1) (driverId (driver res)) False)\<rparr>)
       [Str ''Ride matched successfully. Total distance: '',
        Fixed 2 total, Str '' km, Total ETA: '', Fixed 1 eta, Str '' min'']"
  have e: "processRequest rm req = Some (Inr (result, rm2))"
    unfolding processRequest_def Let_def using v n f fq fqT
    by (simp add: g g1 result_def rm2_def eta1_def total_def eta_def)
  have r: "matchSuccess result" "matchErrorMessage result = []"
    "assignedDriver result = driver res" "driverToPickupDistance result = nearestDistance res"
    "driverToPickupPath result = pathToPassenger res"
    "pickupToDestinationPath result = path ?pq"
    "pickupToDestinationDistance result = totalDistance ?pq"
    "matchTotalDistance result = nearestDistance res + totalDistance ?pq"
    by (simp_all add: result_def total_def)
  have d2: "driverManager rm2 =
      snd (updateDriverAvailability (driverManager rm) (driverId (driver res)) False)"
    by (simp add: rm2_def logOperation_def dm1)
  show ?thesis using ok(5)
    by (intro exI[of _ result] exI[of _ rm2]) (simp add: e r d2 ok(1-4))
qed


text \<open>The outcomes of \<open>processRequest\<close> as a case rule.\<close>

lemma processRequest_cases:
  assumes G: "graphOk (graph rm)"
  obtains
    (pickup) rm' where
      "\<not> nodeExists (graph rm) (pickupLocation req)"
      "processRequest rm req = Some (Inr (failWith ''Invalid pickup location'', rm'))"
      "driverManager rm' = driverManager rm"
  | (destination) rm' where
      "nodeExists (graph rm) (pickupLocation req)"
      "\<not> nodeExists (graph rm) (destinationLocation req)"
      "processRequest rm req = Some (Inr (failWith ''Invalid destination location'', rm'))"
      "driverManager rm' = driverManager rm"
  | (same) rm' where
      "nodeExists (graph rm) (pickupLocation req)"
      "nodeExists (graph rm) (destinationLocation req)"
      "pickupLocation req = destinationLocation req"
      "processRequest rm req =
         Some (Inr (failWith ''Pickup and destination cannot be the same'', rm'))"
      "driverManager rm' = driverManager rm"
  | (noDriver) rm' where
      "nodeExists (graph rm) (pickupLocation req)"
      "nodeExists (graph rm) (destinationLocation req)"
      "pickupLocation req \<noteq> destinationLocation req"
      "\<not> (\<exists>d \<in> set (available rm). reaches (graph rm) (currentLocation d) (pickupLocation req))"
      "processRequest rm req = Some (Inr (failWith ''No available drivers found'', rm'))"
      "driverManager rm' = driverManager rm"
  | (noRoute) rm' where
      "nodeExists (graph rm) (pickupLocation req)"
      "nodeExists (graph rm) (destinationLocation req)"
      "pickupLocation req \<noteq> destinationLocation req"
      "\<exists>d \<in> set (available rm). reaches (graph rm) (currentLocation d) (pickupLocation req)"
      "\<not> reaches (graph rm) (pickupLocation req) (destinationLocation req)"
      "processRequest rm req =
         Some (Inr (failWith ''No route found from pickup to destination'', rm'))"
      "driverManager rm' = driverManager rm"
  | (matched) r rm' where
      "nodeExists (graph rm) (pickupLocation req)"
      "nodeExists (graph rm) (destinationLocation req)"
      "pickupLocation req \<noteq> destinationLocation req"
      "\<exists>d \<in> set (available rm). reaches (graph rm) (currentLocation d) (pickupLocation req)"
      "reaches (graph rm) (pickupLocation req) (destinationLocation req)"
      "processRequest rm req = Some (Inr (r, rm'))"
      "matchSuccess r"
      "assignedDriver r \<in> set (available rm)"
      "found (route (graph rm) (currentLocation (assignedDriver r)) (pickupLocation req))"
      "driverToPickupDistance r =
         totalDistance (route (graph rm) (currentLocation (assignedDriver r)) (pickupLocation req))"
      "\<forall>d \<in> set (available rm).
         found (route (graph rm) (currentLocation d) (pickupLocation req)) \<longrightarrow>
         driverToPickupDistance r
           \<le> totalDistance (route (graph rm) (currentLocation d) (pickupLocation req))"
      "driverManager rm' =
         snd (updateDriverAvailability (driverManager rm) (driverId (assignedDriver r)) False)"
proof -
  let ?g = "graph rm"
  let ?p = "pickupLocation req"
  let ?q = "destinationLocation req"
  consider (a) "\<not> nodeExists ?g ?p"
    | (b) "nodeExists ?g ?p" "\<not> nodeExists ?g ?q"
    | (c) "nodeExists ?g ?p" "nodeExists ?g ?q" "?p = ?q"
    | (d) "nodeExists ?g ?p" "nodeExists ?g ?q" "?p \<noteq> ?q"
          "\<not> (\<exists>d \<in> set (available rm). reaches ?g (currentLocation d) ?p)"
    | (e) "nodeExists ?g ?p" "nodeExists ?g ?q" "?p \<noteq> ?q"
          "\<exists>d \<in> set (available rm). reaches ?g (currentLocation d) ?p"
          "\<not> reaches ?g ?p ?q"
    | (f) "nodeExists ?g ?p" "nodeExists ?g ?q" "?p \<noteq> ?q"
          "\<exists>d \<in> set (available rm). reaches ?g (currentLocation d) ?p"
          "reaches ?g ?p ?q"
    by blast
  then show thesis
  proof cases
    case a
    then show thesis using processRequest_invalid(1)[of rm req] pickup by blast
  next
    case b
    then show thesis using processRequest_invalid(2)[of rm req] destination by blast
  next
    case c
    then show thesis using processRequest_invalid(3)[of rm req] same by blast
  next
    case d
    then show thesis using processRequest_no_driver[OF G d] noDriver by blast
  next
    case e
    then show thesis using processRequest_no_route[OF G e] noRoute by blast
  next
    case f
    from processRequest_success[OF G f]
    obtain r rm' where "processRequest rm req = Some (Inr (r, rm'))"
      "matchSuccess r"
      "assignedDriver r \<in> set (available rm)"
      "found (route (graph rm) (currentLocation (assignedDriver r)) (pickupLocation req))"
      "driverToPickupDistance r =
         totalDistance (route (graph rm) (currentLocation (assignedDriver r)) (pickupLocation req))"
      "\<forall>d \<in> set (available rm).
         found (route (graph rm) (currentLocation d) (pickupLocation req)) \<longrightarrow>
         driverToPickupDistance r
           \<le> totalDistance (route (graph rm) (currentLocation d) (pickupLocation req))"
      "driverManager rm' =
         snd (updateDriverAvailability (driverManager rm) (driverId (assignedDriver r)) False)"
      by (elim exE conjE)
    then show thesis using f matched by blast
  qed
qed

text \<open>The routes of the scenarios.\<close>

lemma graphOk_twoTowns: "graphOk twoTowns"
  by (simp add: graphOk_def validate_def twoTowns_def zero_double_def)

lemma twoTowns_built:
  "Inr twoTowns =
     (case newGraph 4 of Inl e \<Rightarrow> Inl e | Inr g0 \<Rightarrow>
      case addNode g0 0 ''A'' 0 0 of Inl e \<Rightarrow> Inl e | Inr g1 \<Rightarrow>
      case addNode g1 1 ''B'' 0 0 of Inl e \<Rightarrow> Inl e | Inr g2 \<Rightarrow>
      case addNode g2 2 ''C'' 0 0 of Inl e \<Rightarrow> Inl e | Inr g3 \<Rightarrow>
      case addNode g3 3 ''D'' 0 0 of Inl e \<Rightarrow> Inl e | Inr g4 \<Rightarrow>
      case addEdge g4 0 1 (Fin 3) [] of Inl e \<Rightarrow> Inl e | Inr g5 \<Rightarrow>
      addEdge g5 2 3 (Fin 4) [])"
  by (simp add: twoTowns_def newGraph_def addNode_def addEdge_def Let_def zero_double_def
      eval_nat_numeral)


lemma twoTowns_routes:
  "findShortestPath twoTowns 0 1 =
     Some (Inr \<lparr>path = [0, 1], totalDistance = Fin 3, estimatedTime = Fin (9 / 2),
                roadNames = [[]], found = True\<rparr>)"
  "findShortestPath twoTowns 1 0 =
     Some (Inr \<lparr>path = [1, 0], totalDistance = Fin 3, estimatedTime = Fin (9 / 2),
                roadNames = [[]], found = True\<rparr>)"
  "findShortestPath twoTowns 1 2 = Some (Inr notFound)"
  "findShortestPath twoTowns 3 0 = Some (Inr notFound)"
  by (simp_all add: twoTowns_def search_eval eta_values eval_nat_numeral)


text \<open>The equations that evaluate the matcher on the scenarios.\<close>

lemmas match_eval =
  fleet_def matcherAddDriver_def addDriver_def atEnd_def driverAt_def newDriver_def
  newRideMatcher_def trip_def available_def getAvailableDrivers_def findNearestDriver_def
  logOperation_def notFoundDriver_def defaultDriver_def processRequest_def failWith_def
  emptyMatchResult_def findRide_def emptyRideMatch_def updateDriverAvailability_def
  getDriver_def markedBusy_def driversOk_def zero_double_def notFound_def
  Let_def

lemma scenario_nodes:
  "nodeExists city4 0" "nodeExists city4 1" "nodeExists city4 2" "nodeExists city4 3"
  "nodeExists twoTowns 0" "nodeExists twoTowns 1" "nodeExists twoTowns 2"
  "nodeExists twoTowns 3"
  by (simp_all add: nodeExists_def city4_def twoTowns_def)

lemma twoTowns_reaches:
  "reaches twoTowns 0 1" "reaches twoTowns 1 0" "\<not> reaches twoTowns 1 2"
  "\<not> reaches twoTowns 3 0"
  using route_found[OF graphOk_twoTowns, of 0 1] route_found[OF graphOk_twoTowns, of 1 0]
    route_found[OF graphOk_twoTowns, of 1 2] route_found[OF graphOk_twoTowns, of 3 0]
  by (simp_all add: route_def twoTowns_routes notFound_def)



lemma sixPlaces_built:
  "Inr sixPlaces =
     (case newGraph 6 of Inl e \<Rightarrow> Inl e | Inr g0 \<Rightarrow>
      case addNode g0 0 [] 0 0 of Inl e \<Rightarrow> Inl e | Inr g1 \<Rightarrow>
      case addNode g1 1 [] 0 0 of Inl e \<Rightarrow> Inl e | Inr g2 \<Rightarrow>
      case addNode g2 2 [] 0 0 of Inl e \<Rightarrow> Inl e | Inr g3 \<Rightarrow>
      case addNode g3 3 [] 0 0 of Inl e \<Rightarrow> Inl e | Inr g4 \<Rightarrow>
      case addNode g4 4 [] 0 0 of Inl e \<Rightarrow> Inl e | Inr g5 \<Rightarrow>
      addNode g5 5 [] 0 0)"
  by (simp add: sixPlaces_def placeAt_def newGraph_def addNode_def
      Let_def zero_double_def eval_nat_numeral)

lemma sideRoads_built:
  "Inr sideRoads =
     (case addDirectedEdge sixPlaces 1 2 (Fin 10000000000000002) [] of Inl e \<Rightarrow> Inl e | Inr g7 \<Rightarrow>
      case addDirectedEdge g7 2 3 (Fin (3 / 4)) [] of Inl e \<Rightarrow> Inl e | Inr g8 \<Rightarrow>
      case addDirectedEdge g8 3 0 (Fin (3 / 4)) [] of Inl e \<Rightarrow> Inl e | Inr g9 \<Rightarrow>
      case addDirectedEdge g9 4 5 (Fin 10000000000000000) [] of Inl e \<Rightarrow> Inl e | Inr g10 \<Rightarrow>
      addDirectedEdge g10 5 0 (Fin 3) [])"
  by (simp add: sideRoads_def sixPlaces_def edgeTo_def addDirectedEdge_def
      Let_def zero_double_def eval_nat_numeral)







text \<open>
  One driver at 0 in the two towns. A ride from 1 to 2 has a driver and no route; a ride
  from 1 to 0 is matched.
\<close>

lemma twoTowns_no_route:
  "\<exists>rm'. processRequest (fleet twoTowns [driverAt ''D1'' 0]) (trip 1 2) =
     Some (Inr (failWith ''No route found from pickup to destination'', rm'))"
  by (simp add: match_eval twoTowns_routes scenario_nodes)

lemma twoTowns_matched:
  "\<exists>r rm'. processRequest (fleet twoTowns [driverAt ''D1'' 0]) (trip 1 0) = Some (Inr (r, rm'))
     \<and> matchSuccess r \<and> assignedDriver r = driverAt ''D1'' 0
     \<and> driverToPickupDistance r = Fin 3 \<and> matchTotalDistance r = Fin 6"
  by (simp add: match_eval twoTowns_routes scenario_nodes)

text \<open>One driver at 3 in the two towns, or none, and a ride from 0 to 1.\<close>

lemma twoTowns_stranded:
  "\<exists>rm'. findNearestDriver (fleet twoTowns [driverAt ''D1'' 3]) 0 = Some (Inr (notFoundDriver, rm'))"
  "\<exists>rm'. findNearestDriver (fleet twoTowns []) 0 = Some (Inr (notFoundDriver, rm'))"
  "\<exists>rm'. processRequest (fleet twoTowns [driverAt ''D1'' 3]) (trip 0 1) =
     Some (Inr (failWith ''No available drivers found'', rm'))"
  "\<exists>rm'. processRequest (fleet twoTowns []) (trip 0 1) =
     Some (Inr (failWith ''No available drivers found'', rm'))"
  by (simp_all add: match_eval twoTowns_routes scenario_nodes)





text \<open>
  Claim C4. On a well-formed graph and registry \<open>processRequest\<close> returns a result. It is
  a success exactly when pickup and destination are registered and differ, an available
  driver reaches the pickup and the destination is reachable from the pickup. Every other
  outcome is a failure that carries its error message and leaves the driver manager as it
  was; this holds in particular when a nearest driver was found and no route leads from
  pickup to destination. On success the assigned driver, an available one, is marked busy
  and no other entry of the registry changes.
\<close>

theorem C4_driver_busy_only_on_success:
  assumes G: "graphOk (graph rm)" and ok: "driversOk (driverManager rm)"
  shows "\<exists>r rm'. processRequest rm req = Some (Inr (r, rm'))
     \<and> matchSuccess r =
         (nodeExists (graph rm) (pickupLocation req)
          \<and> nodeExists (graph rm) (destinationLocation req)
          \<and> pickupLocation req \<noteq> destinationLocation req
          \<and> (\<exists>d \<in> set (getAvailableDrivers (driverManager rm)).
                reaches (graph rm) (currentLocation d) (pickupLocation req))
          \<and> reaches (graph rm) (pickupLocation req) (destinationLocation req))
     \<and> (\<not> matchSuccess r \<longrightarrow>
           driverManager rm' = driverManager rm \<and> r = failWith (matchErrorMessage r)
           \<and> matchErrorMessage r =
               (if \<not> nodeExists (graph rm) (pickupLocation req)
                then ''Invalid pickup location''
                else if \<not> nodeExists (graph rm) (destinationLocation req)
                then ''Invalid destination location''
                else if pickupLocation req = destinationLocation req
                then ''Pickup and destination cannot be the same''
                else if \<not> (\<exists>d \<in> set (getAvailableDrivers (driverManager rm)).
                              reaches (graph rm) (currentLocation d) (pickupLocation req))
                then ''No available drivers found''
                else ''No route found from pickup to destination''))
     \<and> (matchSuccess r \<longrightarrow>
           assignedDriver r \<in> set (getAvailableDrivers (driverManager rm))
           \<and> drivers (driverManager rm') =
                markedBusy (driverId (assignedDriver r)) (drivers (driverManager rm))
           \<and> getDriver (driverManager rm') (driverId (assignedDriver r)) =
                Some ((assignedDriver r)\<lparr>isAvailable := False\<rparr>))"
  using G
proof (cases rule: processRequest_cases[of rm req])
  case (pickup rm')
  show ?thesis unfolding pickup(2) using pickup(1,3)
    by (intro exI[of _ "failWith ''Invalid pickup location''"] exI[of _ rm'])
       (simp add: failWith_def emptyMatchResult_def)
next
  case (destination rm')
  show ?thesis unfolding destination(3) using destination(1,2,4)
    by (intro exI[of _ "failWith ''Invalid destination location''"] exI[of _ rm'])
       (simp add: failWith_def emptyMatchResult_def)
next
  case (same rm')
  show ?thesis unfolding same(4) using same(1,2,3,5)
    by (intro exI[of _ "failWith ''Pickup and destination cannot be the same''"] exI[of _ rm'])
       (simp add: failWith_def emptyMatchResult_def)
next
  case (noDriver rm')
  show ?thesis unfolding noDriver(5) using noDriver(1,2,3,4,6)
    by (intro exI[of _ "failWith ''No available drivers found''"] exI[of _ rm'])
       (simp add: failWith_def emptyMatchResult_def available_def)
next
  case (noRoute rm')
  show ?thesis unfolding noRoute(6) using noRoute(1,2,3,4,5,7)
    by (intro exI[of _ "failWith ''No route found from pickup to destination''"] exI[of _ rm'])
       (simp add: failWith_def emptyMatchResult_def available_def)
next
  case (matched r rm')
  have d: "assignedDriver r \<in> set (getAvailableDrivers (driverManager rm))"
    using matched(8) by (simp add: available_def)
  have mb: "drivers (driverManager rm') =
        markedBusy (driverId (assignedDriver r)) (drivers (driverManager rm))"
    "getDriver (driverManager rm') (driverId (assignedDriver r)) =
        Some ((assignedDriver r)\<lparr>isAvailable := False\<rparr>)"
    using markBusy[OF ok d] unfolding matched(12) by simp_all
  show ?thesis unfolding matched(6) using matched(1,2,3,4,5,7) d mb
    by (intro exI[of _ r] exI[of _ rm']) (simp add: available_def)
qed

text \<open>
  Claim C4 in the two towns with one driver at 0. A ride from 1 to 2 finds the driver
  and no route: it fails and the driver manager is the same. A ride from 1 to 0 is
  matched and the driver is busy afterwards.
\<close>

theorem C4_witness:
  "graphOk (graph (fleet twoTowns [driverAt ''D1'' 0]))
   \<and> driversOk (driverManager (fleet twoTowns [driverAt ''D1'' 0]))
   \<and> (\<exists>d \<in> set (getAvailableDrivers (driverManager (fleet twoTowns [driverAt ''D1'' 0]))).
         reaches twoTowns (currentLocation d) 1)
   \<and> (\<exists>r rm'. processRequest (fleet twoTowns [driverAt ''D1'' 0]) (trip 1 2)
                 = Some (Inr (r, rm'))
         \<and> \<not> matchSuccess r
         \<and> matchErrorMessage r = ''No route found from pickup to destination''
         \<and> driverManager rm' = driverManager (fleet twoTowns [driverAt ''D1'' 0]))
   \<and> (\<exists>r rm'. processRequest (fleet twoTowns [driverAt ''D1'' 0]) (trip 1 0)
                 = Some (Inr (r, rm'))
         \<and> matchSuccess r \<and> assignedDriver r = driverAt ''D1'' 0
         \<and> getDriver (driverManager rm') ''D1''
             = Some ((driverAt ''D1'' 0)\<lparr>isAvailable := False\<rparr>))"
proof -
  let ?rm = "fleet twoTowns [driverAt ''D1'' 0]"
  have g: "graph ?rm = twoTowns" by (simp add: match_eval)
  have G: "graphOk (graph ?rm)" using graphOk_twoTowns g by simp
  have ok: "driversOk (driverManager ?rm)" by (simp add: match_eval)
  have a: "getAvailableDrivers (driverManager ?rm) = [driverAt ''D1'' 0]"
    by (simp add: match_eval)
  have l: "currentLocation (driverAt ''D1'' 0) = 0" "driverId (driverAt ''D1'' 0) = ''D1''"
    by (simp_all add: driverAt_def newDriver_def)
  have r: "\<exists>d \<in> set (getAvailableDrivers (driverManager ?rm)).
         reaches twoTowns (currentLocation d) 1"
    unfolding a using twoTowns_reaches(1) by (simp add: l)
  obtain rm1 where e1: "processRequest ?rm (trip 1 2) =
     Some (Inr (failWith ''No route found from pickup to destination'', rm1))"
    using twoTowns_no_route by blast
  obtain r2 rm2 where e2: "processRequest ?rm (trip 1 0) = Some (Inr (r2, rm2))"
    and s2: "matchSuccess r2" "assignedDriver r2 = driverAt ''D1'' 0"
    using twoTowns_matched by blast
  have "\<exists>r rm'. processRequest ?rm (trip 1 2) = Some (Inr (r, rm'))
         \<and> \<not> matchSuccess r
         \<and> matchErrorMessage r = ''No route found from pickup to destination''
         \<and> driverManager rm' = driverManager ?rm"
    using C4_driver_busy_only_on_success[OF G ok, of "trip 1 2"] unfolding e1
    by (auto simp: failWith_def emptyMatchResult_def)
  moreover have "\<exists>r rm'. processRequest ?rm (trip 1 0) = Some (Inr (r, rm'))
         \<and> matchSuccess r \<and> assignedDriver r = driverAt ''D1'' 0
         \<and> getDriver (driverManager rm') ''D1''
             = Some ((driverAt ''D1'' 0)\<lparr>isAvailable := False\<rparr>)"
    using C4_driver_busy_only_on_success[OF G ok, of "trip 1 0"] s2 unfolding e2
    by (auto simp: l)
  ultimately show ?thesis using G ok r by blast
qed

text \<open>
  Claim C7, as the code has it. On a well-formed graph, for a valid request and a registry
  of which no available driver reaches the pickup, the search returns the not-found
  result and \<open>processRequest\<close> fails with the message \<open>No available drivers found\<close> and
  leaves the driver manager as it was, whether some driver is available or none. The two
  cases differ in one line of the system log only: \<open>Could not find reachable driver\<close>
  after the line that counts the available drivers, where the empty registry gives
  \<open>No available drivers found\<close>.
\<close>

theorem C7_no_reachable_driver:
  assumes G: "graphOk (graph rm)"
    and v: "nodeExists (graph rm) (pickupLocation req)"
      "nodeExists (graph rm) (destinationLocation req)"
      "pickupLocation req \<noteq> destinationLocation req"
    and nr: "\<not> (\<exists>d \<in> set (getAvailableDrivers (driverManager rm)).
                 reaches (graph rm) (currentLocation d) (pickupLocation req))"
  shows "(\<exists>rm1. findNearestDriver rm (pickupLocation req) = Some (Inr (notFoundDriver, rm1))
            \<and> systemLogs rm1 = systemLogs rm @
                 (if getAvailableDrivers (driverManager rm) = []
                  then [[Str ''No available drivers found'']]
                  else [[Str ''Searching for nearest driver among '',
                         Count (length (getAvailableDrivers (driverManager rm))),
                         Str '' available drivers using Greedy approach''],
                        [Str ''Could not find reachable driver'']]))
       \<and> (\<exists>rm'. processRequest rm req =
                   Some (Inr (failWith ''No available drivers found'', rm'))
            \<and> \<not> matchSuccess (failWith ''No available drivers found'')
            \<and> driverManager rm' = driverManager rm
            \<and> systemLogs rm' =
                 [[Str ''Processing ride request '', Str (requestId req)]] @
                 (if getAvailableDrivers (driverManager rm) = []
                  then [[Str ''No available drivers found'']]
                  else [[Str ''Searching for nearest driver among '',
                         Count (length (getAvailableDrivers (driverManager rm))),
                         Str '' available drivers using Greedy approach''],
                        [Str ''Could not find reachable driver'']]) @
                 [[Str ''Error: No available drivers'']])"
proof (rule conjI)
  let ?p = "pickupLocation req"
  from findNearestDriver_spec[OF G, of ?p]
  obtain res rm1 where n: "findNearestDriver rm ?p = Some (Inr (res, rm1))"
    and nf: "nearestFound res =
               (\<exists>d \<in> set (available rm). reaches (graph rm) (currentLocation d) ?p)"
    and no: "\<not> nearestFound res \<longrightarrow>
           res = notFoundDriver
           \<and> systemLogs rm1 = systemLogs rm @
               (if available rm = [] then [[Str ''No available drivers found'']]
                else [[Str ''Searching for nearest driver among '', Count (length (available rm)),
                       Str '' available drivers using Greedy approach''],
                      [Str ''Could not find reachable driver'']])"
    by (elim exE conjE)
  have "\<not> nearestFound res" using nf nr by (simp add: available_def)
  then have "res = notFoundDriver"
    and "systemLogs rm1 = systemLogs rm @
               (if available rm = [] then [[Str ''No available drivers found'']]
                else [[Str ''Searching for nearest driver among '', Count (length (available rm)),
                       Str '' available drivers using Greedy approach''],
                      [Str ''Could not find reachable driver'']])"
    using no by blast+
  then show "\<exists>rm1. findNearestDriver rm ?p = Some (Inr (notFoundDriver, rm1))
            \<and> systemLogs rm1 = systemLogs rm @
                 (if getAvailableDrivers (driverManager rm) = []
                  then [[Str ''No available drivers found'']]
                  else [[Str ''Searching for nearest driver among '',
                         Count (length (getAvailableDrivers (driverManager rm))),
                         Str '' available drivers using Greedy approach''],
                        [Str ''Could not find reachable driver'']])"
    using n unfolding available_def by blast
next
  have nr': "\<not> (\<exists>d \<in> set (available rm).
                 reaches (graph rm) (currentLocation d) (pickupLocation req))"
    using nr by (simp add: available_def)
  have "\<not> matchSuccess (failWith ''No available drivers found'')"
    by (simp add: failWith_def emptyMatchResult_def)
  then show "\<exists>rm'. processRequest rm req =
                   Some (Inr (failWith ''No available drivers found'', rm'))
            \<and> \<not> matchSuccess (failWith ''No available drivers found'')
            \<and> driverManager rm' = driverManager rm
            \<and> systemLogs rm' =
                 [[Str ''Processing ride request '', Str (requestId req)]] @
                 (if getAvailableDrivers (driverManager rm) = []
                  then [[Str ''No available drivers found'']]
                  else [[Str ''Searching for nearest driver among '',
                         Count (length (getAvailableDrivers (driverManager rm))),
                         Str '' available drivers using Greedy approach''],
                        [Str ''Could not find reachable driver'']]) @
                 [[Str ''Error: No available drivers'']]"
    using processRequest_no_driver[OF G v nr'] unfolding available_def by blast
qed

text \<open>
  The two towns with one driver at 3, who is available and does not reach 0, and the two
  towns with no driver: for a ride from 0 to 1 the search returns the same result in both
  and \<open>processRequest\<close> returns the same failure in both, with the message
  \<open>No available drivers found\<close>.
\<close>

theorem C7_counterexample:
  "getAvailableDrivers (driverManager (fleet twoTowns [driverAt ''D1'' 3])) = [driverAt ''D1'' 3]
   \<and> getAvailableDrivers (driverManager (fleet twoTowns [])) = []
   \<and> nodeExists twoTowns 3 \<and> nodeExists twoTowns 0 \<and> \<not> reaches twoTowns 3 0
   \<and> map_option (map_sum id fst) (findNearestDriver (fleet twoTowns [driverAt ''D1'' 3]) 0)
       = map_option (map_sum id fst) (findNearestDriver (fleet twoTowns []) 0)
   \<and> map_option (map_sum id fst) (processRequest (fleet twoTowns [driverAt ''D1'' 3]) (trip 0 1))
       = map_option (map_sum id fst) (processRequest (fleet twoTowns []) (trip 0 1))
   \<and> map_option (map_sum id fst) (processRequest (fleet twoTowns [driverAt ''D1'' 3]) (trip 0 1))
       = Some (Inr (failWith ''No available drivers found''))"
proof -
  obtain a b c d where
    "findNearestDriver (fleet twoTowns [driverAt ''D1'' 3]) 0 = Some (Inr (notFoundDriver, a))"
    "findNearestDriver (fleet twoTowns []) 0 = Some (Inr (notFoundDriver, b))"
    "processRequest (fleet twoTowns [driverAt ''D1'' 3]) (trip 0 1) =
       Some (Inr (failWith ''No available drivers found'', c))"
    "processRequest (fleet twoTowns []) (trip 0 1) =
       Some (Inr (failWith ''No available drivers found'', d))"
    using twoTowns_stranded by blast
  moreover have
    "getAvailableDrivers (driverManager (fleet twoTowns [driverAt ''D1'' 3])) = [driverAt ''D1'' 3]"
    "getAvailableDrivers (driverManager (fleet twoTowns [])) = []"
    by (simp_all add: match_eval)
  ultimately show ?thesis using twoTowns_reaches(4) scenario_nodes(5,8) by simp
qed

text \<open>Claim C7 in the two towns with one driver at 3 and a ride from 0 to 1.\<close>

theorem C7_witness:
  "graphOk (graph (fleet twoTowns [driverAt ''D1'' 3]))
   \<and> nodeExists (graph (fleet twoTowns [driverAt ''D1'' 3])) (pickupLocation (trip 0 1))
   \<and> nodeExists (graph (fleet twoTowns [driverAt ''D1'' 3])) (destinationLocation (trip 0 1))
   \<and> pickupLocation (trip 0 1) \<noteq> destinationLocation (trip 0 1)
   \<and> getAvailableDrivers (driverManager (fleet twoTowns [driverAt ''D1'' 3])) = [driverAt ''D1'' 3]
   \<and> \<not> reaches twoTowns (currentLocation (driverAt ''D1'' 3)) 0
   \<and> (\<exists>rm'. processRequest (fleet twoTowns [driverAt ''D1'' 3]) (trip 0 1) =
               Some (Inr (failWith ''No available drivers found'', rm'))
         \<and> driverManager rm' = driverManager (fleet twoTowns [driverAt ''D1'' 3])
         \<and> systemLogs rm' =
             [[Str ''Processing ride request '', Str ''R''],
              [Str ''Searching for nearest driver among '', Count 1,
               Str '' available drivers using Greedy approach''],
              [Str ''Could not find reachable driver''],
              [Str ''Error: No available drivers'']])"
proof -
  let ?rm = "fleet twoTowns [driverAt ''D1'' 3]"
  have g: "graph ?rm = twoTowns" by (simp add: match_eval)
  have G: "graphOk (graph ?rm)" using graphOk_twoTowns g by simp
  have t: "pickupLocation (trip 0 1) = 0" "destinationLocation (trip 0 1) = 1"
    "requestId (trip 0 1) = ''R''"
    by (simp_all add: trip_def)
  have v: "nodeExists (graph ?rm) (pickupLocation (trip 0 1))"
    "nodeExists (graph ?rm) (destinationLocation (trip 0 1))"
    "pickupLocation (trip 0 1) \<noteq> destinationLocation (trip 0 1)"
    unfolding g t using scenario_nodes by simp_all
  have a: "getAvailableDrivers (driverManager ?rm) = [driverAt ''D1'' 3]"
    by (simp add: match_eval)
  have l: "currentLocation (driverAt ''D1'' 3) = 3"
    by (simp add: driverAt_def newDriver_def)
  have nr: "\<not> (\<exists>d \<in> set (getAvailableDrivers (driverManager ?rm)).
                 reaches (graph ?rm) (currentLocation d) (pickupLocation (trip 0 1)))"
    unfolding a g t using twoTowns_reaches(4) by (simp add: l)
  have "\<exists>rm'. processRequest ?rm (trip 0 1) =
               Some (Inr (failWith ''No available drivers found'', rm'))
         \<and> driverManager rm' = driverManager ?rm
         \<and> systemLogs rm' =
             [[Str ''Processing ride request '', Str ''R''],
              [Str ''Searching for nearest driver among '', Count 1,
               Str '' available drivers using Greedy approach''],
              [Str ''Could not find reachable driver''],
              [Str ''Error: No available drivers'']]"
    using C7_no_reachable_driver[OF G v nr] unfolding a t by auto
  then show ?thesis using G v a twoTowns_reaches(4) unfolding l by blast
qed



end
